theory Spec2Isabelle
  imports Main
begin

section \<open>Errors and promises\<close>

text \<open>
  Thrown values. \<open>TypeError\<close> is what JavaScript throws when a property is read from
  \<open>undefined\<close> (\<open>worker.on\<close> with no worker, \<open>targetId.replace\<close> with no id);
  \<open>Failure\<close> carries the payload of a worker's \<open>error\<close> event or of a rejected
  collaborator call.
\<close>

datatype error = TypeError | Failure string

datatype 'v promise = Pending | Resolved 'v | Rejected error

fun is_Resolved :: "'v promise \<Rightarrow> bool" where
  "is_Resolved (Resolved v) = True"
| "is_Resolved Pending = False"
| "is_Resolved (Rejected e) = False"

fun resolved_values :: "'v promise list \<Rightarrow> 'v list" where
  "resolved_values [] = []"
| "resolved_values (Resolved v # ps) = v # resolved_values ps"
| "resolved_values (p # ps) = resolved_values ps"

section \<open>Worker pool (createWorkerPool)\<close>

text \<open>
  A worker thread is named by the order in which \<open>createWorkerPool\<close> created it.
  The pool keeps \<open>size\<close> (fixed at creation) and the mutable array \<open>workers\<close>.
\<close>

type_synonym worker = nat

record pool =
  pool_size :: nat
  workers :: "worker list"

text \<open>\<open>size = poolSize ?? Math.max(1, os.cpus().length - 1)\<close>, then one worker per index.\<close>

definition createWorkerPool :: "nat option \<Rightarrow> nat \<Rightarrow> pool" where
  "createWorkerPool poolSize cpus =
     (let psize = (case poolSize of Some n \<Rightarrow> n | None \<Rightarrow> max 1 (cpus - 1))
      in \<lparr>pool_size = psize, workers = [0..<psize]\<rparr>)"

text \<open>\<open>terminate\<close> awaits every worker's termination and then empties the array.\<close>

definition terminate :: "pool \<Rightarrow> pool" where
  "terminate p = p\<lparr>workers := []\<rparr>"

subsection \<open>Chunking\<close>

text \<open>\<open>Math.ceil(n / p)\<close> for a positive divisor.\<close>

definition ceil_div :: "nat \<Rightarrow> nat \<Rightarrow> nat" where
  "ceil_div n p = (n + p - 1) div p"

text \<open>\<open>items.slice(i, j)\<close> for \<open>0 \<le> i \<le> j\<close>; the end is clipped to the array.\<close>

definition slice :: "nat \<Rightarrow> nat \<Rightarrow> 'a list \<Rightarrow> 'a list" where
  "slice i j xs = take (j - i) (drop i xs)"

text \<open>
  The loop \<open>for (let i = 0; i < items.length; i += chunkSize) chunks.push(items.slice(i, i + chunkSize))\<close>.
  A chunk size of zero cannot arise (the size is a ceiling of a positive quotient, or
  infinite); the guard only makes the recursion total.
\<close>

function chunk_loop :: "nat \<Rightarrow> nat \<Rightarrow> 'a list \<Rightarrow> 'a list list" where
  "chunk_loop chunkSize i items =
     (if i < length items \<and> 0 < chunkSize
      then slice i (i + chunkSize) items # chunk_loop chunkSize (i + chunkSize) items
      else [])"
  by pat_completeness auto
termination
  by (relation "measure (\<lambda>(chunkSize, i, items). length items - i)") auto

declare chunk_loop.simps [simp del]

text \<open>
  With a pool of size zero \<open>items.length / size\<close> is \<open>Infinity\<close>: the loop body runs
  once, \<open>slice(0, Infinity)\<close> is the whole array, and \<open>i\<close> becomes infinite.
\<close>

definition make_chunks :: "nat \<Rightarrow> 'a list \<Rightarrow> 'a list list" where
  "make_chunks psize items =
     (if psize = 0 then [items]
      else chunk_loop (ceil_div (length items) psize) 0 items)"

subsection \<open>Messages and the state of one dispatch\<close>

text \<open>
  What a worker can post: the handler tests \<open>msg.type === 'progress'\<close>, then
  \<open>msg.type === 'result'\<close>, and treats anything else as a legacy result.
\<close>

datatype 'r message = Progress int | Result 'r | Legacy 'r

text \<open>
  An event on the worker at position \<open>i\<close> of the pool's array: a message, an
  \<open>error\<close> event with its payload, or an \<open>exit\<close> event with the exit code (a worker
  that ends without an uncaught exception emits \<open>exit\<close> only).
\<close>

datatype 'r event = Message nat "'r message" | Error nat string | Exit nat int

text \<open>
  The state one call of \<open>dispatch\<close> closes over: one promise per chunk, whether the
  message handler of chunk \<open>i\<close> is still registered, the array \<open>workerProgress\<close>,
  the chunks posted (position \<open>i\<close> of the receiving worker in \<open>workers\<close>, chunk),
  the successive arguments given to \<open>onProgress\<close>,
  whether \<open>onProgress\<close> was supplied, and the promise \<open>Promise.all(promises)\<close>
  returned to the caller.
\<close>

record ('a, 'r) dispatch_state =
  promises :: "'r promise list"
  listening :: "bool list"
  workerProgress :: "int list"
  posted :: "(nat \<times> 'a list) list"
  reported :: "int list"
  onProgress :: bool
  settled :: "'r list promise"

text \<open>
  The synchronous part of \<open>dispatch\<close>. An empty input resolves at once. Otherwise each
  chunk \<open>i\<close> gets a promise whose executor registers the listeners on \<open>workers[i]\<close>
  and posts the chunk; where \<open>workers[i]\<close> is \<open>undefined\<close> the executor throws on
  \<open>worker.on\<close>, which rejects that promise with a TypeError before anything is posted.
\<close>

definition dispatch :: "pool \<Rightarrow> 'a list \<Rightarrow> bool \<Rightarrow> ('a, 'r) dispatch_state" where
  "dispatch p items onP =
     (if items = [] then
        \<lparr>promises = [], listening = [], workerProgress = [], posted = [],
         reported = [], onProgress = onP, settled = Resolved []\<rparr>
      else
        let chunks = make_chunks (pool_size p) items;
            started = map (\<lambda>i. i < length (workers p)) [0..<length chunks]
        in \<lparr>promises = map (\<lambda>b. if b then Pending else Rejected TypeError) started,
            listening = started,
            workerProgress = replicate (length chunks) 0,
            posted = map (\<lambda>i. (i, chunks ! i))
                       (filter (\<lambda>i. i < length (workers p)) [0..<length chunks]),
            reported = [],
            onProgress = onP,
            settled = (if list_all id started then Pending else Rejected TypeError)\<rparr>)"

text \<open>
  \<open>resolve(v)\<close> and \<open>reject(err)\<close> of chunk \<open>i\<close>: a settled promise ignores them.
  \<open>Promise.all\<close> rejects with the first rejection and fulfils, in chunk order, once
  every promise is resolved.
\<close>

definition resolve :: "nat \<Rightarrow> 'r \<Rightarrow> ('a, 'r) dispatch_state \<Rightarrow> ('a, 'r) dispatch_state" where
  "resolve i v st =
     (if promises st ! i = Pending then
        let ps = (promises st)[i := Resolved v]
        in st\<lparr>promises := ps,
              settled := (if settled st = Pending \<and> list_all is_Resolved ps
                          then Resolved (resolved_values ps) else settled st)\<rparr>
      else st)"

definition reject :: "nat \<Rightarrow> error \<Rightarrow> ('a, 'r) dispatch_state \<Rightarrow> ('a, 'r) dispatch_state" where
  "reject i e st =
     (if promises st ! i = Pending then
        st\<lparr>promises := (promises st)[i := Rejected e],
           settled := (if settled st = Pending then Rejected e else settled st)\<rparr>
      else st)"

definition removeListener :: "nat \<Rightarrow> ('a, 'r) dispatch_state \<Rightarrow> ('a, 'r) dispatch_state" where
  "removeListener i st = st\<lparr>listening := (listening st)[i := False]\<rparr>"

text \<open>The message handler of chunk \<open>i\<close>.\<close>

fun handler :: "nat \<Rightarrow> 'r message \<Rightarrow> ('a, 'r) dispatch_state \<Rightarrow> ('a, 'r) dispatch_state" where
  "handler i (Progress filesProcessed) st =
     (let wp = (workerProgress st)[i := filesProcessed]
      in st\<lparr>workerProgress := wp,
            reported := (if onProgress st then reported st @ [sum_list wp] else reported st)\<rparr>)"
| "handler i (Result d) st = resolve i d (removeListener i st)"
| "handler i (Legacy m) st = resolve i m (removeListener i st)"

text \<open>
  One event. A message reaches the handler only while it is registered; an \<open>error\<close>
  event removes the handler and rejects the chunk's promise. Workers beyond the chunks
  carry no listener of this dispatch, and \<open>dispatch\<close> registers no listener for
  \<open>exit\<close>: such an event changes nothing.
\<close>

fun step :: "'r event \<Rightarrow> ('a, 'r) dispatch_state \<Rightarrow> ('a, 'r) dispatch_state" where
  "step (Message i m) st =
     (if i < length (promises st) \<and> listening st ! i then handler i m st else st)"
| "step (Error i err) st =
     (if i < length (promises st) then reject i (Failure err) (removeListener i st) else st)"
| "step (Exit i code) st = st"

fun run :: "'r event list \<Rightarrow> ('a, 'r) dispatch_state \<Rightarrow> ('a, 'r) dispatch_state" where
  "run [] st = st"
| "run (ev # evs) st = run evs (step ev st)"

text \<open>
  The behaviour of workers that the equivalence property assumes: every worker applies
  the same pure function \<open>f\<close> to the chunk it was sent and posts one \<open>result\<close>
  message. \<open>sent\<close> lists the chunks posted (position of the worker, chunk) in the order
  in which the workers finish.
\<close>

definition workerReplies :: "('a list \<Rightarrow> 'r) \<Rightarrow> (nat \<times> 'a list) list \<Rightarrow> 'r event list" where
  "workerReplies f sent = map (\<lambda>(i, chunk). Message i (Result (f chunk))) sent"

text \<open>
  The state of a dispatch in which exactly the workers at the positions in \<open>S\<close> have
  posted their result and nothing else has happened.
\<close>

definition repliedBy ::
    "nat set \<Rightarrow> ('a list \<Rightarrow> 'r) \<Rightarrow> 'a list list \<Rightarrow> ('a, 'r) dispatch_state \<Rightarrow> bool" where
  "repliedBy S f chunks st \<longleftrightarrow>
     length (promises st) = length chunks \<and> length (listening st) = length chunks
     \<and> (\<forall>j < length chunks.
           promises st ! j = (if j \<in> S then Resolved (f (chunks ! j)) else Pending)
           \<and> listening st ! j = (j \<notin> S))
     \<and> settled st = (if \<forall>j < length chunks. j \<in> S then Resolved (map f chunks) else Pending)"

text \<open>
  The latest progress count of the worker at position \<open>j\<close> in a history of events,
  read off the history alone: the count of its most recent progress message, zero
  before the first one. Messages count while the handler of \<open>j\<close> is registered,
  that is, up to the first result, legacy result or error of \<open>j\<close>.
\<close>

fun terminal :: "nat \<Rightarrow> 'r event \<Rightarrow> bool" where
  "terminal j (Message i (Progress n)) = False"
| "terminal j (Message i (Result d)) = (i = j)"
| "terminal j (Message i (Legacy m)) = (i = j)"
| "terminal j (Error i err) = (i = j)"
| "terminal j (Exit i code) = False"

fun progressOf :: "nat \<Rightarrow> 'r event \<Rightarrow> int option" where
  "progressOf j (Message i (Progress n)) = (if i = j then Some n else None)"
| "progressOf j (Message i (Result d)) = None"
| "progressOf j (Message i (Legacy m)) = None"
| "progressOf j (Error i err) = None"
| "progressOf j (Exit i code) = None"

fun latestFrom :: "int \<Rightarrow> nat \<Rightarrow> 'r event list \<Rightarrow> int" where
  "latestFrom cur j [] = cur"
| "latestFrom cur j (ev # evs) =
     (if terminal j ev then cur
      else latestFrom (case progressOf j ev of Some n \<Rightarrow> n | None \<Rightarrow> cur) j evs)"

definition latestCount :: "'r event list \<Rightarrow> nat \<Rightarrow> int" where
  "latestCount evs j = latestFrom 0 j evs"

section \<open>Knowledge graph types\<close>





section \<open>Search tool (searchTool)\<close>

text \<open>
  The collaborators \<open>createGraphRAGTools\<close> binds the tool to. A collaborator call that
  rejects is \<open>Inl\<close>. The second step of the tool (one-hop connections of each hit and
  the numbered listing) is the parameter \<open>formatMatches\<close>: it receives the hits and
  \<open>k\<close> and yields the text returned; failures of its connection queries are caught
  inside it.
\<close>

record 'row search_deps =
  isBM25Ready :: bool
  isEmbeddingReady :: bool
  hybridSearch :: "string \<Rightarrow> int \<Rightarrow> error + 'row list"
  semanticSearch :: "string \<Rightarrow> int \<Rightarrow> error + 'row list"
  formatMatches :: "'row list \<Rightarrow> int \<Rightarrow> string"

definition dquote :: string where
  "dquote = [CHR 0x22]"

definition search_unavailable_message :: string where
  "search_unavailable_message = ''Search is not available. Please load a repository first.''"

definition no_code_found_message :: "string \<Rightarrow> string" where
  "no_code_found_message query =
     ''No code found matching '' @ dquote @ query @ dquote
       @ ''. Try different terms or use grep for exact patterns.''"

text \<open>
  Step 1 of the tool: \<open>None\<close> is the early return of the last branch, \<open>Some\<close> the value
  of \<open>searchResults\<close> after the branches.
\<close>

definition searchStep1 :: "'row search_deps \<Rightarrow> string \<Rightarrow> int \<Rightarrow> error + 'row list option" where
  "searchStep1 deps query k =
     (if isBM25Ready deps then
        (case hybridSearch deps query k of
           Inr rs \<Rightarrow> Inr (Some rs)
         | Inl e \<Rightarrow>
             (if isEmbeddingReady deps then
                (case semanticSearch deps query k of
                   Inr rs \<Rightarrow> Inr (Some rs)
                 | Inl e' \<Rightarrow> Inl e')
              else Inr (Some [])))
      else if isEmbeddingReady deps then
        (case semanticSearch deps query k of
           Inr rs \<Rightarrow> Inr (Some rs)
         | Inl e \<Rightarrow> Inl e)
      else Inr None)"

definition searchTool :: "'row search_deps \<Rightarrow> string \<Rightarrow> int option \<Rightarrow> error + string" where
  "searchTool deps query limit =
     (let k = (case limit of Some n \<Rightarrow> n | None \<Rightarrow> 10)
      in case searchStep1 deps query k of
           Inl e \<Rightarrow> Inl e
         | Inr None \<Rightarrow> Inr search_unavailable_message
         | Inr (Some searchResults) \<Rightarrow>
             (if length searchResults = 0 then Inr (no_code_found_message query)
              else Inr (formatMatches deps searchResults k)))"

section \<open>Impact analysis (blastRadiusTool)\<close>

datatype direction = upstream | downstream

fun direction_name :: "direction \<Rightarrow> string" where
  "direction_name upstream = ''upstream''"
| "direction_name downstream = ''downstream''"

text \<open>
  A result row of the store; \<open>nodeId = None\<close> is a row whose \<open>id\<close> is
  \<open>null\<close> or \<open>undefined\<close>.
\<close>

record row =
  nodeId :: "string option"
  name :: string
  nodeType :: string
  filePath :: "string option"

text \<open>
  The two Cypher texts the tool builds, by their parameters: the lookup of the target by
  name, and \<open>MATCH ... -[:CodeRelation*d]-> ...\<close>, the paths of exactly \<open>d\<close> hops
  from or to the node with the given id.
\<close>

datatype query = FindTarget string | Traverse direction string nat

definition error_string :: "error \<Rightarrow> string" where
  "error_string e = (case e of TypeError \<Rightarrow> ''TypeError'' | Failure s \<Rightarrow> s)"

definition error_finding_message :: "string \<Rightarrow> error \<Rightarrow> string" where
  "error_finding_message target e =
     ''Error finding target '' @ dquote @ target @ dquote @ '': '' @ error_string e"

definition could_not_find_message :: "string \<Rightarrow> string" where
  "could_not_find_message target =
     ''Could not find '' @ dquote @ target @ dquote
       @ '' in the codebase. Try using the search tool first to find the exact name.''"

definition no_dependencies_message :: "direction \<Rightarrow> string \<Rightarrow> string" where
  "no_dependencies_message dir target =
     ''No '' @ direction_name dir @ '' dependencies found for '' @ dquote @ target @ dquote
       @ ''. This code appears to be ''
       @ (if dir = upstream then ''unused (not called by anything)''
          else ''self-contained (no outgoing dependencies)'') @ ''.''"

text \<open>
  What the tool returns: one of the plain messages, or the tiered report, kept as the
  data it is rendered from (target, direction, \<open>totalAffected\<close>, \<open>byDepth\<close>,
  \<open>allNodeIds\<close>).
\<close>

datatype blast_output =
    Text string
  | Report string direction nat "nat \<rightharpoonup> row list" "string list"

definition requestedDepth :: "int option \<Rightarrow> int" where
  "requestedDepth maxDepth = min (case maxDepth of Some n \<Rightarrow> n | None \<Rightarrow> 3) 10"

text \<open>
  The loop \<open>for (let d = 1; d <= Math.min(depth, 3); d++)\<close> that builds one query per
  depth. Building a query calls \<open>targetId.replace\<close>, which throws when the target row
  carries no id.
\<close>

function depthQueries :: "direction \<Rightarrow> string option \<Rightarrow> int \<Rightarrow> int \<Rightarrow> error + query list" where
  "depthQueries dir tid depth d =
     (if d \<le> min depth 3 then
        (case tid of
           None \<Rightarrow> Inl TypeError
         | Some t \<Rightarrow>
             (case depthQueries dir tid depth (d + 1) of
                Inl e \<Rightarrow> Inl e
              | Inr qs \<Rightarrow> Inr (Traverse dir t (nat d) # qs)))
      else Inr [])"
  by pat_completeness auto
termination
  by (relation "measure (\<lambda>(dir, tid, depth, d). nat (min depth 3 + 1 - d))") auto

declare depthQueries.simps [simp del]

text \<open>\<open>executeQuery(dQuery).catch(() => [])\<close>.\<close>

definition queryOrEmpty :: "(query \<Rightarrow> error + row list) \<Rightarrow> query \<Rightarrow> row list" where
  "queryOrEmpty executeQuery q = (case executeQuery q of Inl e \<Rightarrow> [] | Inr rs \<Rightarrow> rs)"

record blast_acc =
  byDepth :: "nat \<rightharpoonup> row list"
  allNodeIds :: "string list"
  seenIds :: "string set"

text \<open>The body of the inner \<open>forEach\<close>: an empty id is falsy.\<close>

definition visitRow :: "nat \<Rightarrow> row \<Rightarrow> blast_acc \<Rightarrow> blast_acc" where
  "visitRow d r acc =
     (case nodeId r of
        None \<Rightarrow> acc
      | Some nid \<Rightarrow>
          if nid \<noteq> [] \<and> nid \<notin> seenIds acc then
            acc\<lparr>seenIds := insert nid (seenIds acc),
                byDepth := (byDepth acc)
                  (d \<mapsto> (case byDepth acc d of None \<Rightarrow> [] | Some rs \<Rightarrow> rs) @ [r]),
                allNodeIds := allNodeIds acc @ [nid]\<rparr>
          else acc)"

text \<open>The outer \<open>forEach\<close> over \<open>depthResults\<close>, with \<open>d = idx + 1\<close>.\<close>

definition combineByDepth :: "row list list \<Rightarrow> blast_acc" where
  "combineByDepth depthResults =
     fold (\<lambda>(idx, results). fold (visitRow (idx + 1)) results)
       (enumerate 0 depthResults)
       \<lparr>byDepth = Map.empty, allNodeIds = [], seenIds = {}\<rparr>"

definition blastRadiusTool ::
    "(query \<Rightarrow> error + row list) \<Rightarrow> string \<Rightarrow> direction \<Rightarrow> int option \<Rightarrow> error + blast_output" where
  "blastRadiusTool executeQuery target dir maxDepth =
     (let depth = requestedDepth maxDepth
      in case executeQuery (FindTarget target) of
           Inl e \<Rightarrow> Inr (Text (error_finding_message target e))
         | Inr [] \<Rightarrow> Inr (Text (could_not_find_message target))
         | Inr (targetNode # others) \<Rightarrow>
             (case depthQueries dir (nodeId targetNode) depth 1 of
                Inl e \<Rightarrow> Inl e
              | Inr queries \<Rightarrow>
                  let depthResults = map (queryOrEmpty executeQuery) queries;
                      acc = combineByDepth depthResults;
                      totalAffected = length (allNodeIds acc)
                  in if totalAffected = 0
                     then Inr (Text (no_dependencies_message dir target))
                     else Inr (Report target dir totalAffected (byDepth acc) (allNodeIds acc))))"

text \<open>\<open>byDepth.get(d) || []\<close>, as the report reads each tier.\<close>

definition rowsAt :: "blast_acc \<Rightarrow> nat \<Rightarrow> row list" where
  "rowsAt acc d = (case byDepth acc d of None \<Rightarrow> [] | Some rs \<Rightarrow> rs)"

text \<open>The ids that count in a list of rows: present and not the empty string.\<close>

definition truthyIds :: "row list \<Rightarrow> string set" where
  "truthyIds rs = {nid. nid \<noteq> [] \<and> Some nid \<in> nodeId ` set rs}"

text \<open>
  The rows of a result that are newly seen with respect to a set of ids already seen:
  the first row of each id that counts and is not yet in the set.
\<close>

fun newlySeen :: "string set \<Rightarrow> row list \<Rightarrow> row list" where
  "newlySeen seen [] = []"
| "newlySeen seen (r # rs) =
     (case nodeId r of
        None \<Rightarrow> newlySeen seen rs
      | Some nid \<Rightarrow>
          if nid \<noteq> [] \<and> nid \<notin> seen then r # newlySeen (insert nid seen) rs
          else newlySeen seen rs)"

text \<open>
  A store used to run the tool on concrete inputs: a call chain
  \<open>a \<rightarrow> b \<rightarrow> c \<rightarrow> d \<rightarrow> e \<rightarrow> f\<close> in which \<open>a\<close> also calls \<open>c\<close> directly,
  queried downstream from \<open>a\<close>; nothing calls \<open>a\<close>. The rows of depth \<open>d\<close> are the
  ends of the paths of exactly \<open>d\<close> calls.
\<close>

definition node :: "string \<Rightarrow> row" where
  "node n = \<lparr>nodeId = Some (''Function:src/chain.ts:'' @ n), name = n,
             nodeType = ''Function'', filePath = Some ''src/chain.ts''\<rparr>"

fun chain_store :: "query \<Rightarrow> error + row list" where
  "chain_store (FindTarget t) = (if t = ''a'' then Inr [node ''a''] else Inr [])"
| "chain_store (Traverse dir tid d) =
     (if dir = downstream \<and> tid = ''Function:src/chain.ts:a'' then
        (if d = 1 then Inr [node ''b'', node ''c'']
         else if d = 2 then Inr [node ''c'', node ''d'']
         else if d = 3 then Inr [node ''d'', node ''e'']
         else if d = 4 then Inr [node ''e'', node ''f'']
         else if d = 5 then Inr [node ''f'']
         else Inr [])
      else Inr [])"

section \<open>Properties of the worker pool\<close>

subsection \<open>Chunking\<close>

lemma concat_chunk_loop: "0 < cs \<Longrightarrow> concat (chunk_loop cs i items) = drop i items"
proof (induction cs i items rule: chunk_loop.induct)
  case (1 cs i items)
  show ?case
  proof (cases "i < length items")
    case True
    have "drop i items = take cs (drop i items) @ drop cs (drop i items)"
      by (rule append_take_drop_id [symmetric])
    also have "drop cs (drop i items) = drop (i + cs) items"
      by (simp add: add.commute)
    finally have "drop i items = take cs (drop i items) @ drop (i + cs) items" .
    with True 1 show ?thesis
      by (subst chunk_loop.simps) (simp add: slice_def)
  next
    case False
    then show ?thesis by (subst chunk_loop.simps) simp
  qed
qed

lemma ceil_div_zero: "0 < cs \<Longrightarrow> ceil_div 0 cs = 0"
  by (simp add: ceil_div_def)

lemma ceil_div_step: "0 < cs \<Longrightarrow> 0 < n \<Longrightarrow> ceil_div n cs = Suc (ceil_div (n - cs) cs)"
proof (cases "cs \<le> n")
  case True
  assume cs: "0 < cs" and n: "0 < n"
  have a: "n + cs - 1 = (n - 1) + cs" using n by simp
  have b: "n - cs + cs - 1 = n - 1" using True by simp
  have "((n - 1) + cs) div cs = Suc ((n - 1) div cs)"
    using cs div_add_self2 [of cs "n - 1"] by simp
  then show ?thesis unfolding ceil_div_def a b .
next
  case False
  assume cs: "0 < cs" and n: "0 < n"
  have a: "n + cs - 1 = (n - 1) + cs" using n by simp
  have "((n - 1) + cs) div cs = Suc ((n - 1) div cs)"
    using cs div_add_self2 [of cs "n - 1"] by simp
  moreover have "(n - 1) div cs = 0" using False by simp
  moreover have "n - cs = 0" using False by simp
  ultimately show ?thesis using cs unfolding ceil_div_def a by simp
qed

lemma length_chunk_loop:
  "0 < cs \<Longrightarrow> length (chunk_loop cs i items) = ceil_div (length items - i) cs"
proof (induction cs i items rule: chunk_loop.induct)
  case (1 cs i items)
  show ?case
  proof (cases "i < length items")
    case True
    then have "ceil_div (length items - i) cs = Suc (ceil_div (length items - i - cs) cs)"
      using 1(2) by (simp add: ceil_div_step)
    with True 1 show ?thesis
      by (subst chunk_loop.simps) (simp add: algebra_simps)
  next
    case False
    then show ?thesis using 1(2) by (subst chunk_loop.simps) (simp add: ceil_div_zero)
  qed
qed

lemma chunk_loop_lengths:
  "c \<in> set (chunk_loop cs i items) \<Longrightarrow> 0 < length c \<and> length c \<le> cs"
proof (induction cs i items rule: chunk_loop.induct)
  case (1 cs i items)
  show ?case
  proof (cases "i < length items \<and> 0 < cs")
    case True
    then have "chunk_loop cs i items = slice i (i + cs) items # chunk_loop cs (i + cs) items"
      by (subst chunk_loop.simps) simp
    with 1(2) have "c = slice i (i + cs) items \<or> c \<in> set (chunk_loop cs (i + cs) items)"
      by simp
    then show ?thesis
    proof
      assume "c = slice i (i + cs) items"
      then show ?thesis using True by (simp add: slice_def)
    next
      assume "c \<in> set (chunk_loop cs (i + cs) items)"
      then show ?thesis using 1(1) True by simp
    qed
  next
    case False
    then have "chunk_loop cs i items = []" by (subst chunk_loop.simps) auto
    with 1(2) show ?thesis by simp
  qed
qed

lemma chunk_loop_butlast:
  "c \<in> set (butlast (chunk_loop cs i items)) \<Longrightarrow> length c = cs"
proof (induction cs i items rule: chunk_loop.induct)
  case (1 cs i items)
  show ?case
  proof (cases "i < length items \<and> 0 < cs")
    case True
    then have eq: "chunk_loop cs i items = slice i (i + cs) items # chunk_loop cs (i + cs) items"
      by (subst chunk_loop.simps) simp
    show ?thesis
    proof (cases "chunk_loop cs (i + cs) items = []")
      case True
      with eq 1(2) show ?thesis by simp
    next
      case False
      then have "i + cs < length items"
        by (subst (asm) chunk_loop.simps) (simp split: if_splits)
      then have "length (slice i (i + cs) items) = cs" by (simp add: slice_def)
      with eq False 1 True show ?thesis by auto
    qed
  next
    case False
    then have "chunk_loop cs i items = []" by (subst chunk_loop.simps) auto
    with 1(2) show ?thesis by simp
  qed
qed

lemma ceil_div_pos: "0 < n \<Longrightarrow> 0 < p \<Longrightarrow> 0 < ceil_div n p"
  by (simp add: ceil_div_def div_greater_zero_iff)

lemma ceil_div_le: "0 < p \<Longrightarrow> n \<le> ceil_div n p * p"
proof -
  assume p: "0 < p"
  have "(n + p - 1) div p * p + (n + p - 1) mod p = n + p - 1" by simp
  moreover have "(n + p - 1) mod p < p" using p by simp
  ultimately show ?thesis unfolding ceil_div_def by linarith
qed

lemma ceil_div_bound: "0 < c \<Longrightarrow> n \<le> c * p \<Longrightarrow> ceil_div n c \<le> p"
proof -
  assume c: "0 < c" and n: "n \<le> c * p"
  have "n + c - 1 < Suc p * c" using c n by (simp add: algebra_simps)
  then have "(n + c - 1) div c < Suc p" by (rule less_mult_imp_div_less)
  then show ?thesis by (simp add: ceil_div_def)
qed

lemma chunk_count_le: "0 < p \<Longrightarrow> 0 < n \<Longrightarrow> ceil_div n (ceil_div n p) \<le> p"
  by (rule ceil_div_bound) (simp_all add: ceil_div_pos ceil_div_le)

lemma make_chunks_nonempty: "items \<noteq> [] \<Longrightarrow> make_chunks P items \<noteq> []"
  by (cases "P = 0")
     (simp_all add: make_chunks_def chunk_loop.simps [of _ 0 items] ceil_div_pos)

lemma fresh_pool_started:
  "0 < P \<Longrightarrow> items \<noteq> [] \<Longrightarrow>
   filter (\<lambda>i. i < length (workers (createWorkerPool (Some P) cpus)))
     [0..<length (make_chunks P items)] = [0..<length (make_chunks P items)]"
  by (simp add: createWorkerPool_def make_chunks_def length_chunk_loop ceil_div_pos
      chunk_count_le less_le_trans)

lemma make_chunks_Nil: "0 < P \<Longrightarrow> make_chunks P [] = []"
  by (simp add: make_chunks_def chunk_loop.simps)

lemma posted_fresh:
  assumes "0 < P"
  shows "posted (dispatch (createWorkerPool (Some P) cpus) items onP)
           = zip [0..<length (make_chunks P items)] (make_chunks P items)"
proof (cases "items = []")
  case True
  then show ?thesis using assms by (simp add: dispatch_def make_chunks_Nil)
next
  case False
  let ?chunks = "make_chunks P items"
  have "posted (dispatch (createWorkerPool (Some P) cpus) items onP)
          = map (\<lambda>i. (i, ?chunks ! i)) [0..<length ?chunks]"
    using False assms fresh_pool_started [of P items cpus]
    by (simp add: dispatch_def Let_def createWorkerPool_def)
  also have "\<dots> = zip [0..<length ?chunks] ?chunks"
    by (rule nth_equalityI) simp_all
  finally show ?thesis .
qed

text \<open>
  Claim C1, as amended. For a non-empty input of \<open>N\<close> items and a pool of \<open>P \<ge> 1\<close>
  workers, \<open>dispatch\<close> cuts the input into contiguous chunks of \<open>ceil(N / P)\<close> items
  (only the last may be shorter, and none is empty) whose concatenation is the input;
  there are \<open>ceil(N / ceil(N / P))\<close> of them, at least one and at most \<open>P\<close>, and
  chunk \<open>i\<close> is posted to the worker at position \<open>i\<close>, so that the workers beyond the
  number of chunks receive nothing.
\<close>

theorem dispatch_chunks:
  assumes "items \<noteq> []" and "1 \<le> P"
  shows "concat (make_chunks P items) = items
       \<and> length (make_chunks P items) = ceil_div (length items) (ceil_div (length items) P)
       \<and> 1 \<le> length (make_chunks P items) \<and> length (make_chunks P items) \<le> P
       \<and> (\<forall>c \<in> set (butlast (make_chunks P items)). length c = ceil_div (length items) P)
       \<and> 1 \<le> length (last (make_chunks P items))
       \<and> length (last (make_chunks P items)) \<le> ceil_div (length items) P
       \<and> posted (dispatch (createWorkerPool (Some P) cpus) items onP :: ('a, 'r) dispatch_state)
           = zip [0..<length (make_chunks P items)] (make_chunks P items)"
proof -
  let ?cs = "ceil_div (length items) P"
  let ?chunks = "make_chunks P items"
  from assms have P: "0 < P" and n: "0 < length items" by simp_all
  then have cs: "0 < ?cs" by (simp add: ceil_div_pos)
  have eq: "?chunks = chunk_loop ?cs 0 items" using P by (simp add: make_chunks_def)
  have c1: "concat ?chunks = items" using cs by (simp add: eq concat_chunk_loop)
  have c2: "length ?chunks = ceil_div (length items) ?cs"
    using cs by (simp add: eq length_chunk_loop)
  have ne: "?chunks \<noteq> []" using assms(1) by (rule make_chunks_nonempty)
  then have c3: "1 \<le> length ?chunks" by (cases ?chunks) simp_all
  have c4: "length ?chunks \<le> P" using P n by (simp add: c2 chunk_count_le)
  have c5: "\<forall>c \<in> set (butlast ?chunks). length c = ?cs"
    by (simp add: eq chunk_loop_butlast)
  have "last ?chunks \<in> set (chunk_loop ?cs 0 items)" using ne by (simp add: eq)
  then have c6: "1 \<le> length (last ?chunks) \<and> length (last ?chunks) \<le> ?cs"
    using chunk_loop_lengths [of "last ?chunks" ?cs 0 items] by (simp add: Suc_le_eq)
  have "posted (dispatch (createWorkerPool (Some P) cpus) items onP :: ('a, 'r) dispatch_state)
          = zip [0..<length ?chunks] ?chunks"
    using P by (rule posted_fresh)
  then show ?thesis using c1 c2 c3 c4 c5 c6 by blast
qed

theorem dispatch_chunks_witness:
  "[10, 20, 30, 40, 50 :: nat] \<noteq> [] \<and> (1::nat) \<le> 4
   \<and> concat (make_chunks 4 [10, 20, 30, 40, 50 :: nat]) = [10, 20, 30, 40, 50]
   \<and> length (make_chunks 4 [10, 20, 30, 40, 50 :: nat]) = 3
   \<and> posted (dispatch (createWorkerPool (Some 4) 8) [10, 20, 30, 40, 50 :: nat] False
        :: (nat, nat) dispatch_state) = zip [0..<3] [[10, 20], [30, 40], [50]]"
proof -
  have mc: "make_chunks 4 [10, 20, 30, 40, 50 :: nat] = [[10, 20], [30, 40], [50]]"
    by (simp add: make_chunks_def ceil_div_def chunk_loop.simps slice_def)
  have len: "length [[10, 20], [30, 40], [50::nat]] = 3" by simp
  have h: "[10, 20, 30, 40, 50 :: nat] \<noteq> []" "(1::nat) \<le> 4" by simp_all
  from dispatch_chunks [OF h, of 8 False]
  have "posted (dispatch (createWorkerPool (Some 4) 8) [10, 20, 30, 40, 50 :: nat] False
          :: (nat, nat) dispatch_state) = zip [0..<3] [[10, 20], [30, 40], [50]]"
    unfolding mc len by blast
  moreover have "concat (make_chunks 4 [10, 20, 30, 40, 50 :: nat]) = [10, 20, 30, 40, 50]"
    unfolding mc by simp
  moreover have "length (make_chunks 4 [10, 20, 30, 40, 50 :: nat]) = 3"
    unfolding mc by simp
  ultimately show ?thesis using h by blast
qed

text \<open>
  Five items on a pool of four workers make three chunks, not four: the fourth worker
  is sent nothing.
\<close>

theorem dispatch_chunks_counterexample:
  "length (make_chunks 4 [10, 20, 30, 40, 50 :: nat]) \<noteq> 4
   \<and> length (posted (dispatch (createWorkerPool (Some 4) 8) [10, 20, 30, 40, 50 :: nat] False
        :: (nat, nat) dispatch_state)) \<noteq> 4"
  by (simp add: dispatch_def createWorkerPool_def make_chunks_def ceil_div_def
      chunk_loop.simps slice_def)

subsection \<open>Settling of a dispatch\<close>

lemma run_append: "run (xs @ ys) st = run ys (run xs st)"
  by (induction xs arbitrary: st) simp_all

lemma settled_resolve: "settled st \<noteq> Pending \<Longrightarrow> settled (resolve i v st) = settled st"
  by (simp add: resolve_def Let_def)

lemma settled_reject: "settled st \<noteq> Pending \<Longrightarrow> settled (reject i e st) = settled st"
  by (simp add: reject_def)

lemma settled_removeListener: "settled (removeListener i st) = settled st"
  by (simp add: removeListener_def)

lemma settled_handler: "settled st \<noteq> Pending \<Longrightarrow> settled (handler i m st) = settled st"
  by (cases m) (simp_all add: Let_def settled_resolve settled_removeListener)

lemma settled_step: "settled st \<noteq> Pending \<Longrightarrow> settled (step ev st) = settled st"
  by (cases ev) (simp_all add: settled_handler settled_reject settled_removeListener)

lemma settled_run: "settled st \<noteq> Pending \<Longrightarrow> settled (run evs st) = settled st"
  by (induction evs arbitrary: st) (simp_all add: settled_step)

lemma step_Error_pending:
  assumes "settled st = Pending" and "i < length (promises st)" and "promises st ! i = Pending"
  shows "settled (step (Error i err) st) = Rejected (Failure err)"
  using assms by (simp add: reject_def removeListener_def)

text \<open>
  Claim C6, as amended. While a dispatch is in flight (its promise pending), an
  \<open>error\<close> event of a worker that was sent a chunk and has not yet delivered its
  result rejects the dispatch with that worker's error, and nothing that happens
  afterwards (results of the other workers, further errors, exits) changes this: the
  caller gets the error and no results.
\<close>

theorem worker_failure_fails_dispatch:
  assumes "settled (run evs (dispatch p items onP)) = Pending"
    and "i < length (promises (run evs (dispatch p items onP)))"
    and "promises (run evs (dispatch p items onP)) ! i = Pending"
  shows "settled (run (evs @ Error i err # evs') (dispatch p items onP))
           = Rejected (Failure err)"
proof -
  let ?st = "run evs (dispatch p items onP)"
  have "settled (step (Error i err) ?st) = Rejected (Failure err)"
    using assms by (rule step_Error_pending)
  then have "settled (run evs' (step (Error i err) ?st)) = Rejected (Failure err)"
    by (simp add: settled_run)
  then show ?thesis by (simp add: run_append)
qed

lemma two_chunks: "make_chunks 2 [10, 20 :: nat] = [[10], [20]]"
  by (simp add: make_chunks_def ceil_div_def chunk_loop.simps slice_def)

lemma two_worker_dispatch:
  "(dispatch (createWorkerPool (Some 2) 4) [10, 20 :: nat] onP :: (nat, 'r) dispatch_state) =
     \<lparr>promises = [Pending, Pending], listening = [True, True], workerProgress = [0, 0],
      posted = [(0, [10]), (1, [20])], reported = [], onProgress = onP, settled = Pending\<rparr>"
  by (simp add: dispatch_def createWorkerPool_def two_chunks Let_def)

theorem worker_failure_fails_dispatch_witness:
  "settled (run [Message 0 (Result [1])]
       (dispatch (createWorkerPool (Some 2) 4) [10, 20 :: nat] False)) = (Pending :: nat list list promise)
   \<and> settled (run ([Message 0 (Result [1])] @ Error 1 ''boom'' # [Message 1 (Result [2])])
       (dispatch (createWorkerPool (Some 2) 4) [10, 20 :: nat] False))
       = (Rejected (Failure ''boom'') :: nat list list promise)"
proof -
  let ?st = "run [Message 0 (Result [1::nat])]
       (dispatch (createWorkerPool (Some 2) 4) [10, 20 :: nat] False)"
  have a: "settled ?st = Pending"
    by (simp add: two_worker_dispatch resolve_def removeListener_def Let_def)
  have b: "1 < length (promises ?st)"
    by (simp add: two_worker_dispatch resolve_def removeListener_def Let_def)
  have c: "promises ?st ! 1 = Pending"
    by (simp add: two_worker_dispatch resolve_def removeListener_def Let_def)
  from worker_failure_fails_dispatch [OF a b c, of "''boom''" "[Message 1 (Result [2])]"] a
  show ?thesis by simp
qed

text \<open>
  Two ways in which a worker fails while the dispatch is in flight and the dispatch does
  not fail. Worker 0 delivers its result and then raises an error: its promise is
  already resolved, the rejection is ignored, and the dispatch succeeds with both
  results. Worker 1 exits without raising an error: nothing listens for \<open>exit\<close>, and
  after the result of worker 0 the dispatch is still pending.
\<close>

theorem worker_failure_fails_dispatch_counterexample:
  "settled (run [Message 0 (Result [1])]
       (dispatch (createWorkerPool (Some 2) 4) [10, 20 :: nat] False)) = (Pending :: nat list list promise)
   \<and> settled (run [Message 0 (Result [1]), Error 0 ''boom'', Message 1 (Result [2])]
       (dispatch (createWorkerPool (Some 2) 4) [10, 20 :: nat] False))
       = (Resolved [[1], [2]] :: nat list list promise)
   \<and> settled (run [Exit 1 1, Message 0 (Result [1])]
       (dispatch (createWorkerPool (Some 2) 4) [10, 20 :: nat] False))
       = (Pending :: nat list list promise)"
  by (simp add: two_worker_dispatch resolve_def reject_def removeListener_def Let_def)

lemma dispatch_terminated:
  assumes "items \<noteq> []"
  shows "settled (dispatch (terminate p) items onP) = Rejected TypeError"
proof -
  have "make_chunks (pool_size p) items \<noteq> []" using assms by (rule make_chunks_nonempty)
  then obtain c cs where "make_chunks (pool_size p) items = c # cs"
    by (cases "make_chunks (pool_size p) items") simp_all
  then show ?thesis using assms
    by (simp add: dispatch_def terminate_def Let_def)
qed

text \<open>
  Claim C8, as amended. After \<open>terminate\<close> has completed, a dispatch of a non-empty
  input posts nothing and is rejected (with the TypeError of reading \<open>on\<close> from a
  missing worker), whatever the workers do afterwards; it never yields a result.
\<close>

theorem dispatch_after_terminate:
  assumes "items \<noteq> []"
  shows "settled (run evs (dispatch (terminate p) items onP)) = Rejected TypeError
       \<and> posted (dispatch (terminate p) items onP) = []"
  using assms
  by (simp add: settled_run dispatch_terminated)
     (simp add: dispatch_def terminate_def Let_def)

theorem dispatch_after_terminate_witness:
  "[10, 20 :: nat] \<noteq> []
   \<and> settled (run [Message 0 (Result [1])]
        (dispatch (terminate (createWorkerPool (Some 2) 4)) [10, 20 :: nat] False))
       = (Rejected TypeError :: nat list list promise)"
proof -
  have h: "[10, 20 :: nat] \<noteq> []" by simp
  from dispatch_after_terminate [OF h, of "[Message 0 (Result [1])]"
      "createWorkerPool (Some 2) 4" False] h
  show ?thesis by blast
qed

text \<open>
  An empty input is resolved with the empty result before any worker is looked at, also
  on a terminated pool.
\<close>

theorem dispatch_after_terminate_counterexample:
  "settled (run [] (dispatch (terminate (createWorkerPool (Some 2) 4)) ([] :: nat list) False))
     = (Resolved [] :: nat list list promise)"
  by (simp add: dispatch_def)

subsection \<open>Progress reporting\<close>

lemma length_step [simp]:
  "length (promises (step ev st)) = length (promises st)"
  "length (listening (step ev st)) = length (listening st)"
  "length (workerProgress (step ev st)) = length (workerProgress st)"
  "onProgress (step ev st) = onProgress st"
proof -
  have "length (promises (step ev st)) = length (promises st)
      \<and> length (listening (step ev st)) = length (listening st)
      \<and> length (workerProgress (step ev st)) = length (workerProgress st)
      \<and> onProgress (step ev st) = onProgress st"
  proof (cases ev)
    case (Message i m)
    then show ?thesis
      by (cases m) (simp_all add: resolve_def reject_def removeListener_def Let_def)
  next
    case (Error i err)
    then show ?thesis by (simp add: reject_def removeListener_def)
  next
    case (Exit i code)
    then show ?thesis by simp
  qed
  then show "length (promises (step ev st)) = length (promises st)"
    "length (listening (step ev st)) = length (listening st)"
    "length (workerProgress (step ev st)) = length (workerProgress st)"
    "onProgress (step ev st) = onProgress st"
    by simp_all
qed

lemma listening_step:
  assumes "length (promises st) = length (listening st)" and "j < length (listening st)"
  shows "listening (step ev st) ! j = (listening st ! j \<and> \<not> terminal j ev)"
proof (cases ev)
  case (Message i m)
  then show ?thesis using assms
    by (cases m) (auto simp: resolve_def removeListener_def Let_def nth_list_update)
next
  case (Error i err)
  then show ?thesis using assms
    by (auto simp: reject_def removeListener_def nth_list_update)
next
  case (Exit i code)
  then show ?thesis by simp
qed

lemma workerProgress_step:
  assumes "length (promises st) = length (workerProgress st)" and "j < length (workerProgress st)"
  shows "workerProgress (step ev st) ! j =
     (if listening st ! j then (case progressOf j ev of Some n \<Rightarrow> n | None \<Rightarrow> workerProgress st ! j)
      else workerProgress st ! j)"
proof (cases ev)
  case (Message i m)
  then show ?thesis using assms
    by (cases m) (auto simp: resolve_def removeListener_def Let_def nth_list_update)
next
  case (Error i err)
  then show ?thesis using assms
    by (auto simp: reject_def removeListener_def)
next
  case (Exit i code)
  then show ?thesis by simp
qed

lemma reported_step:
  "reported (step ev st) = reported st @
     (case ev of
        Message i (Progress n) \<Rightarrow>
          if i < length (promises st) \<and> listening st ! i \<and> onProgress st
          then [sum_list (workerProgress (step ev st))] else []
      | Message i (Result d) \<Rightarrow> []
      | Message i (Legacy m) \<Rightarrow> []
      | Error i err \<Rightarrow> []
      | Exit i code \<Rightarrow> [])"
proof (cases ev)
  case (Message i m)
  then show ?thesis
    by (cases m) (simp_all add: resolve_def removeListener_def Let_def)
next
  case (Error i err)
  then show ?thesis by (simp add: reject_def removeListener_def)
next
  case (Exit i code)
  then show ?thesis by simp
qed

lemma length_run [simp]:
  "length (promises (run evs st)) = length (promises st)"
  "length (listening (run evs st)) = length (listening st)"
  "length (workerProgress (run evs st)) = length (workerProgress st)"
  "onProgress (run evs st) = onProgress st"
  by (induction evs arbitrary: st) simp_all

lemma listening_run:
  assumes "length (promises st) = length (listening st)" and "j < length (listening st)"
  shows "listening (run evs st) ! j = (listening st ! j \<and> list_all (\<lambda>e. \<not> terminal j e) evs)"
  using assms
proof (induction evs arbitrary: st)
  case Nil
  then show ?case by simp
next
  case (Cons ev evs)
  have "listening (run evs (step ev st)) ! j =
      (listening (step ev st) ! j \<and> list_all (\<lambda>e. \<not> terminal j e) evs)"
    using Cons.prems by (intro Cons.IH) simp_all
  then show ?case using Cons.prems by (auto simp: listening_step)
qed

lemma workerProgress_run:
  assumes "length (promises st) = length (listening st)"
    and "length (promises st) = length (workerProgress st)"
    and "j < length (workerProgress st)"
  shows "workerProgress (run evs st) ! j =
     (if listening st ! j then latestFrom (workerProgress st ! j) j evs
      else workerProgress st ! j)"
  using assms
proof (induction evs arbitrary: st)
  case Nil
  then show ?case by simp
next
  case (Cons ev evs)
  have ih: "workerProgress (run evs (step ev st)) ! j =
     (if listening (step ev st) ! j then latestFrom (workerProgress (step ev st) ! j) j evs
      else workerProgress (step ev st) ! j)"
    using Cons.prems by (intro Cons.IH) simp_all
  have l: "listening (step ev st) ! j = (listening st ! j \<and> \<not> terminal j ev)"
    using Cons.prems by (simp add: listening_step)
  have w: "workerProgress (step ev st) ! j =
     (if listening st ! j then (case progressOf j ev of Some n \<Rightarrow> n | None \<Rightarrow> workerProgress st ! j)
      else workerProgress st ! j)"
    using Cons.prems by (simp add: workerProgress_step)
  have t: "terminal j ev \<Longrightarrow> progressOf j ev = None"
    by (cases "(j, ev)" rule: terminal.cases) simp_all
  show ?case using t by (auto simp: ih l w)
qed

lemma last_reported_step:
  assumes "onProgress st"
    and "reported st \<noteq> [] \<longrightarrow> last (reported st) = sum_list (workerProgress st)"
  shows "reported (step ev st) \<noteq> [] \<longrightarrow>
         last (reported (step ev st)) = sum_list (workerProgress (step ev st))"
proof (cases ev)
  case (Message i m)
  then show ?thesis using assms
    by (cases m) (auto simp: resolve_def removeListener_def Let_def)
next
  case (Error i err)
  then show ?thesis using assms by (auto simp: reject_def removeListener_def)
next
  case (Exit i code)
  then show ?thesis using assms by simp
qed

lemma last_reported_run:
  assumes "onProgress st"
    and "reported st \<noteq> [] \<longrightarrow> last (reported st) = sum_list (workerProgress st)"
  shows "reported (run evs st) \<noteq> [] \<longrightarrow>
         last (reported (run evs st)) = sum_list (workerProgress (run evs st))"
  using assms
proof (induction evs arbitrary: st)
  case Nil
  then show ?case by simp
next
  case (Cons ev evs)
  have a: "onProgress (step ev st)" using Cons.prems(1) by simp
  have b: "reported (step ev st) \<noteq> [] \<longrightarrow>
         last (reported (step ev st)) = sum_list (workerProgress (step ev st))"
    using Cons.prems by (rule last_reported_step)
  have "reported (run evs (step ev st)) \<noteq> [] \<longrightarrow>
         last (reported (run evs (step ev st))) = sum_list (workerProgress (run evs (step ev st)))"
    using a b by (rule Cons.IH)
  then show ?case by simp
qed

lemma pool_size_pos:
  "poolSize \<noteq> Some 0 \<Longrightarrow> 0 < pool_size (createWorkerPool poolSize cpus)"
  by (cases poolSize) (simp_all add: createWorkerPool_def Let_def)

lemma length_workers:
  "length (workers (createWorkerPool poolSize cpus)) = pool_size (createWorkerPool poolSize cpus)"
  by (simp add: createWorkerPool_def Let_def)

lemma make_chunks_count:
  assumes "0 < P" and "items \<noteq> []"
  shows "length (make_chunks P items) \<le> P"
  using assms by (simp add: make_chunks_def length_chunk_loop ceil_div_pos chunk_count_le)

lemma dispatch_live:
  fixes st0 :: "('a, 'r) dispatch_state"
  assumes "poolSize \<noteq> Some 0" and "st0 = dispatch (createWorkerPool poolSize cpus) items onP"
  shows "listening st0 = replicate (length (promises st0)) True"
    and "workerProgress st0 = replicate (length (promises st0)) 0"
    and "reported st0 = []"
    and "onProgress st0 = onP"
proof -
  let ?p = "createWorkerPool poolSize cpus"
  have P: "0 < pool_size ?p" and w: "length (workers ?p) = pool_size ?p"
    using assms(1) by (simp_all add: pool_size_pos length_workers)
  have "items \<noteq> [] \<Longrightarrow> i < length (make_chunks (pool_size ?p) items) \<Longrightarrow> i < length (workers ?p)" for i
    using make_chunks_count [OF P, of items] w by simp
  then have m: "items \<noteq> [] \<Longrightarrow>
      map (\<lambda>i. i < length (workers ?p)) [0..<length (make_chunks (pool_size ?p) items)]
        = replicate (length (make_chunks (pool_size ?p) items)) True"
    by (intro nth_equalityI) simp_all
  show "listening st0 = replicate (length (promises st0)) True"
    using m by (simp add: assms(2) dispatch_def Let_def)
  show "workerProgress st0 = replicate (length (promises st0)) 0"
    by (simp add: assms(2) dispatch_def Let_def)
  show "reported st0 = []" by (simp add: assms(2) dispatch_def Let_def)
  show "onProgress st0 = onP" by (simp add: assms(2) dispatch_def Let_def)
qed

lemma workerProgress_latest:
  fixes st0 :: "('a, 'r) dispatch_state"
  assumes "poolSize \<noteq> Some 0" and "st0 = dispatch (createWorkerPool poolSize cpus) items onP"
  shows "workerProgress (run evs st0) = map (latestCount evs) [0..<length (promises st0)]"
proof (rule nth_equalityI)
  note live = dispatch_live [OF assms]
  have len: "length (workerProgress st0) = length (promises st0)"
    "length (listening st0) = length (promises st0)"
    using live(1) live(2) by (metis length_replicate)+
  show "length (workerProgress (run evs st0)) = length (map (latestCount evs) [0..<length (promises st0)])"
    by (simp add: len)
  fix j assume "j < length (workerProgress (run evs st0))"
  then have j: "j < length (promises st0)" by (simp add: len)
  then have "workerProgress (run evs st0) ! j =
     (if listening st0 ! j then latestFrom (workerProgress st0 ! j) j evs
      else workerProgress st0 ! j)"
    by (intro workerProgress_run) (simp_all add: len)
  moreover have "listening st0 ! j = True" "workerProgress st0 ! j = 0"
    using j by (subst live; simp)+
  ultimately show "workerProgress (run evs st0) ! j
      = map (latestCount evs) [0..<length (promises st0)] ! j"
    using j by (simp add: latestCount_def)
qed

lemma listening_live:
  fixes st0 :: "('a, 'r) dispatch_state"
  assumes "poolSize \<noteq> Some 0" and "st0 = dispatch (createWorkerPool poolSize cpus) items onP"
    and "j < length (promises st0)"
  shows "listening (run evs st0) ! j = list_all (\<lambda>e. \<not> terminal j e) evs"
proof -
  note live = dispatch_live [OF assms(1,2)]
  have len: "length (listening st0) = length (promises st0)"
    using live(1) by (metis length_replicate)
  have "listening (run evs st0) ! j = (listening st0 ! j \<and> list_all (\<lambda>e. \<not> terminal j e) evs)"
    using assms(3) by (intro listening_run) (simp_all add: len)
  moreover have "listening st0 ! j = True"
    using assms(3) by (subst live; simp)
  ultimately show ?thesis by simp
qed

text \<open>
  Claim C7. With \<open>onProgress\<close> supplied, a progress message that reaches its handler
  (the worker has a chunk and has not yet posted its result or failed) makes exactly one
  call of \<open>onProgress\<close>, whose argument is the sum over the workers of each worker's
  latest progress count; no other event calls it. When a worker resends its latest count
  unchanged, the value reported, if any, equals the value reported last: the cumulative
  count does not go down.
\<close>

theorem progress_reports:
  fixes st0 :: "('a, 'r) dispatch_state" and evs :: "'r event list"
  assumes "poolSize \<noteq> Some 0"
    and "st0 = dispatch (createWorkerPool poolSize cpus) items True"
  shows "reported (run (evs @ [ev]) st0) = reported (run evs st0) @
           (case ev of
              Message i (Progress n) \<Rightarrow>
                if i < length (promises st0) \<and> list_all (\<lambda>e. \<not> terminal i e) evs
                then [sum_list (map (latestCount (evs @ [ev])) [0..<length (promises st0)])]
                else []
            | Message i (Result d) \<Rightarrow> []
            | Message i (Legacy m) \<Rightarrow> []
            | Error i err \<Rightarrow> []
            | Exit i code \<Rightarrow> [])
       \<and> (reported (run evs st0) \<noteq> [] \<longrightarrow>
           reported (run (evs @ [Message j (Progress (latestCount evs j))]) st0) \<noteq> []
           \<and> last (reported (run (evs @ [Message j (Progress (latestCount evs j))]) st0))
               = last (reported (run evs st0)))"
proof -
  note live = dispatch_live [OF assms]
  have wp: "workerProgress (run es st0) = map (latestCount es) [0..<length (promises st0)]"
    for es :: "'r event list"
    using assms by (rule workerProgress_latest)
  have li: "k < length (promises st0) \<Longrightarrow>
      listening (run es st0) ! k = list_all (\<lambda>e. \<not> terminal k e) es"
    for k and es :: "'r event list"
    using assms by (rule listening_live)
  have r: "reported (run (es @ [e]) st0) = reported (run es st0) @
     (case e of
        Message i (Progress n) \<Rightarrow>
          if i < length (promises st0) \<and> listening (run es st0) ! i
          then [sum_list (workerProgress (run (es @ [e]) st0))] else []
      | Message i (Result d) \<Rightarrow> []
      | Message i (Legacy m) \<Rightarrow> []
      | Error i err \<Rightarrow> []
      | Exit i code \<Rightarrow> [])"
    for e and es :: "'r event list"
  proof (cases e)
    case (Message i m)
    then show ?thesis
      by (cases m) (simp_all add: run_append reported_step live(4) del: step.simps)
  next
    case (Error i err)
    then show ?thesis by (simp add: run_append reported_step del: step.simps)
  next
    case (Exit i code)
    then show ?thesis by (simp add: run_append)
  qed
  have first: "reported (run (evs @ [ev]) st0) = reported (run evs st0) @
           (case ev of
              Message i (Progress n) \<Rightarrow>
                if i < length (promises st0) \<and> list_all (\<lambda>e. \<not> terminal i e) evs
                then [sum_list (map (latestCount (evs @ [ev])) [0..<length (promises st0)])]
                else []
            | Message i (Result d) \<Rightarrow> []
            | Message i (Legacy m) \<Rightarrow> []
            | Error i err \<Rightarrow> []
            | Exit i code \<Rightarrow> [])"
  proof (cases ev)
    case (Message i m)
    then show ?thesis unfolding r [of evs ev] wp by (cases m) (auto simp: li)
  next
    case (Error i err)
    then show ?thesis unfolding r [of evs ev] by simp
  next
    case (Exit i code)
    then show ?thesis unfolding r [of evs ev] by simp
  qed
  have inv: "reported (run evs st0) \<noteq> [] \<longrightarrow>
      last (reported (run evs st0)) = sum_list (workerProgress (run evs st0))"
    by (rule last_reported_run) (simp_all add: live)
  let ?e = "Message j (Progress (latestCount evs j)) :: 'r event"
  have second: "reported (run evs st0) \<noteq> [] \<longrightarrow>
           reported (run (evs @ [?e]) st0) \<noteq> []
           \<and> last (reported (run (evs @ [?e]) st0)) = last (reported (run evs st0))"
  proof (cases "j < length (promises st0) \<and> listening (run evs st0) ! j")
    case True
    have "workerProgress (run (evs @ [?e]) st0)
            = (workerProgress (run evs st0))[j := latestCount evs j]"
      using True by (simp add: run_append Let_def)
    also have "\<dots> = workerProgress (run evs st0)"
      using True by (simp add: wp list_update_same_conv)
    finally have same: "workerProgress (run (evs @ [?e]) st0) = workerProgress (run evs st0)" .
    have "reported (run (evs @ [?e]) st0)
            = reported (run evs st0) @ [sum_list (workerProgress (run evs st0))]"
      using True by (simp add: r [of evs ?e] same)
    then show ?thesis using inv by simp
  next
    case False
    then have "reported (run (evs @ [?e]) st0) = reported (run evs st0)"
      by (auto simp: r [of evs ?e])
    then show ?thesis by simp
  qed
  from first second show ?thesis by (rule conjI)
qed

theorem progress_reports_witness:
  "(Some 2 :: nat option) \<noteq> Some 0
   \<and> reported (run [Message 0 (Progress 3), Message 1 (Progress 4)]
        (dispatch (createWorkerPool (Some 2) 4) [10, 20 :: nat] True :: (nat, nat list) dispatch_state))
       = [3, 7]
   \<and> latestCount [Message 0 (Progress 3), Message 1 (Progress 4) :: nat list event] 0 = 3
   \<and> last (reported (run ([Message 0 (Progress 3), Message 1 (Progress 4)] @ [Message 0 (Progress 3)])
        (dispatch (createWorkerPool (Some 2) 4) [10, 20 :: nat] True :: (nat, nat list) dispatch_state)))
       = 7"
proof -
  let ?st0 = "dispatch (createWorkerPool (Some 2) 4) [10, 20 :: nat] True :: (nat, nat list) dispatch_state"
  let ?evs = "[Message 0 (Progress 3), Message 1 (Progress 4)] :: nat list event list"
  have h: "(Some 2 :: nat option) \<noteq> Some 0" by simp
  have a: "reported (run ?evs ?st0) = [3, 7]"
    by (simp add: two_worker_dispatch Let_def)
  have b: "latestCount ?evs 0 = 3" by (simp add: latestCount_def)
  have "reported (run ?evs ?st0) \<noteq> [] \<longrightarrow>
      last (reported (run (?evs @ [Message 0 (Progress (latestCount ?evs 0))]) ?st0))
        = last (reported (run ?evs ?st0))"
    using progress_reports [OF h refl, where evs = ?evs and j = 0 and cpus = 4
        and items = "[10, 20 :: nat]"]
    by blast
  then have c: "last (reported (run (?evs @ [Message 0 (Progress 3)]) ?st0)) = 7"
    unfolding b a by simp
  from h a b c show ?thesis by blast
qed

subsection \<open>Results of a dispatch whose workers all reply\<close>

lemma resolved_values_map: "resolved_values (map Resolved vs) = vs"
  by (induction vs) simp_all

lemma repliedBy_step:
  assumes inv: "repliedBy S f chunks st" and i: "i < length chunks" "i \<notin> S"
  shows "repliedBy (insert i S) f chunks (step (Message i (Result (f (chunks ! i)))) st)"
proof -
  let ?k = "length chunks"
  let ?v = "f (chunks ! i)"
  let ?ps = "(promises st)[i := Resolved ?v]"
  from inv have len: "length (promises st) = ?k" "length (listening st) = ?k"
    and P: "\<And>j. j < ?k \<Longrightarrow> promises st ! j = (if j \<in> S then Resolved (f (chunks ! j)) else Pending)"
    and L: "\<And>j. j < ?k \<Longrightarrow> listening st ! j = (j \<notin> S)"
    and T: "settled st = (if \<forall>j < ?k. j \<in> S then Resolved (map f chunks) else Pending)"
    by (simp_all add: repliedBy_def)
  have pend: "promises st ! i = Pending" and lis: "listening st ! i" using i P L by simp_all
  have sp: "settled st = Pending" using T i by auto
  have psj: "?ps ! j = (if j \<in> insert i S then Resolved (f (chunks ! j)) else Pending)"
    if "j < ?k" for j
    using that P [of j] len i by (auto simp: nth_list_update)
  have all: "list_all is_Resolved ?ps \<longleftrightarrow> (\<forall>j < ?k. j \<in> insert i S)"
  proof
    assume a: "list_all is_Resolved ?ps"
    show "\<forall>j < ?k. j \<in> insert i S"
    proof (intro allI impI)
      fix j assume j: "j < ?k"
      then have "is_Resolved (?ps ! j)" using a len by (simp add: list_all_length)
      then show "j \<in> insert i S" using psj [OF j] by (simp split: if_splits)
    qed
  next
    assume a: "\<forall>j < ?k. j \<in> insert i S"
    show "list_all is_Resolved ?ps"
      unfolding list_all_length
    proof (intro allI impI)
      fix j assume "j < length ?ps"
      then have j: "j < ?k" using len by simp
      then show "is_Resolved (?ps ! j)" using psj [OF j] a by simp
    qed
  qed
  have vals: "resolved_values ?ps = map f chunks" if a: "\<forall>j < ?k. j \<in> insert i S"
  proof -
    have "?ps = map Resolved (map f chunks)"
    proof (rule nth_equalityI)
      show "length ?ps = length (map Resolved (map f chunks))" using len by simp
      fix j assume "j < length ?ps"
      then have j: "j < ?k" using len by simp
      then show "?ps ! j = map Resolved (map f chunks) ! j" using psj [OF j] a by simp
    qed
    then show ?thesis by (simp only: resolved_values_map)
  qed
  have st': "step (Message i (Result ?v)) st =
      st\<lparr>listening := (listening st)[i := False], promises := ?ps,
         settled := (if list_all is_Resolved ?ps then Resolved (resolved_values ?ps) else Pending)\<rparr>"
    using i len pend lis sp by (simp add: resolve_def removeListener_def Let_def)
  have L': "(listening st)[i := False] ! j = (j \<notin> insert i S)" if "j < ?k" for j
    using that L [of j] len i by (auto simp: nth_list_update)
  have T': "(if list_all is_Resolved ?ps then Resolved (resolved_values ?ps) else Pending)
      = (if \<forall>j < ?k. j \<in> insert i S then Resolved (map f chunks) else Pending)"
    using all vals by (cases "\<forall>j < ?k. j \<in> insert i S") simp_all
  show ?thesis
    unfolding st' repliedBy_def
    using len psj L' T' by simp
qed

lemma repliedBy_run:
  assumes "repliedBy S f chunks st" and "distinct order"
    and "set order \<subseteq> {0..<length chunks} - S"
  shows "repliedBy (S \<union> set order) f chunks
           (run (map (\<lambda>i. Message i (Result (f (chunks ! i)))) order) st)"
  using assms
proof (induction order arbitrary: S st)
  case Nil
  then show ?case by simp
next
  case (Cons i order)
  from Cons.prems have i: "i < length chunks" "i \<notin> S" by simp_all
  have "repliedBy (insert i S) f chunks (step (Message i (Result (f (chunks ! i)))) st)"
    using Cons.prems(1) i by (rule repliedBy_step)
  moreover have "distinct order" "set order \<subseteq> {0..<length chunks} - insert i S"
    using Cons.prems by auto
  ultimately have "repliedBy (insert i S \<union> set order) f chunks
      (run (map (\<lambda>i. Message i (Result (f (chunks ! i)))) order)
         (step (Message i (Result (f (chunks ! i)))) st))"
    by (rule Cons.IH)
  then show ?case by simp
qed

lemma repliedBy_dispatch:
  assumes "0 < P" and "items \<noteq> []"
  shows "repliedBy {} f (make_chunks P items) (dispatch (createWorkerPool (Some P) cpus) items onP)"
proof -
  let ?chunks = "make_chunks P items"
  have k: "length ?chunks \<le> P" using assms by (rule make_chunks_count)
  have ne: "?chunks \<noteq> []" using assms(2) by (rule make_chunks_nonempty)
  have started: "map (\<lambda>i. i < P) [0..<length ?chunks] = replicate (length ?chunks) True"
    using k by (intro nth_equalityI) simp_all
  have "0 < length ?chunks" using ne by simp
  then have "\<not> (\<forall>j < length ?chunks. j \<in> {})" by auto
  then show ?thesis
    using assms(2) k
    by (auto simp: repliedBy_def dispatch_def Let_def createWorkerPool_def started list_all_iff)
qed

lemma dispatch_all_replied:
  assumes "0 < P" and "distinct order" and "set order = {0..<length (make_chunks P items)}"
  shows "settled (run (map (\<lambda>i. Message i (Result (f (make_chunks P items ! i)))) order)
            (dispatch (createWorkerPool (Some P) cpus) items onP))
         = Resolved (map f (make_chunks P items))"
proof (cases "items = []")
  case True
  then show ?thesis using assms(1) by (simp add: settled_run dispatch_def make_chunks_Nil)
next
  case False
  let ?chunks = "make_chunks P items"
  have "repliedBy {} f ?chunks (dispatch (createWorkerPool (Some P) cpus) items onP)"
    using assms(1) False by (rule repliedBy_dispatch)
  then have "repliedBy ({} \<union> set order) f ?chunks
      (run (map (\<lambda>i. Message i (Result (f (?chunks ! i)))) order)
         (dispatch (createWorkerPool (Some P) cpus) items onP))"
    using assms(2) by (rule repliedBy_run) (simp add: assms(3))
  then show ?thesis by (simp add: repliedBy_def assms(3))
qed

lemma workerReplies_posted:
  assumes "0 < P" and "distinct (map fst sent)"
    and "set sent = set (posted (dispatch (createWorkerPool (Some P) cpus) items onP
                           :: ('a, 'r) dispatch_state))"
  shows "workerReplies f sent
           = map (\<lambda>i. Message i (Result (f (make_chunks P items ! i)))) (map fst sent)"
    and "set (map fst sent) = {0..<length (make_chunks P items)}"
proof -
  let ?chunks = "make_chunks P items"
  have sent: "set sent = set (zip [0..<length ?chunks] ?chunks)"
    using assms(3) by (simp add: posted_fresh [OF assms(1)])
  have "c = ?chunks ! i" if "(i, c) \<in> set sent" for i c
    using that unfolding sent by (auto simp: in_set_zip)
  then show "workerReplies f sent
           = map (\<lambda>i. Message i (Result (f (?chunks ! i)))) (map fst sent)"
    by (auto simp: workerReplies_def)
  have m: "map fst (zip [0..<length ?chunks] ?chunks) = [0..<length ?chunks]"
    by (rule map_fst_zip) simp
  have "set (map fst sent) = fst ` set sent" by (simp only: set_map)
  also have "\<dots> = fst ` set (zip [0..<length ?chunks] ?chunks)" by (simp only: sent)
  also have "\<dots> = set (map fst (zip [0..<length ?chunks] ?chunks))" by (simp only: set_map)
  also have "\<dots> = {0..<length ?chunks}" unfolding m by simp
  finally show "set (map fst sent) = {0..<length ?chunks}" .
qed

lemma dispatch_posted_replied:
  assumes "0 < P" and "distinct (map fst sent)"
    and "set sent = set (posted (dispatch (createWorkerPool (Some P) cpus) items onP
                           :: ('a, 'r) dispatch_state))"
  shows "settled (run (workerReplies f sent)
            (dispatch (createWorkerPool (Some P) cpus) items onP :: ('a, 'r) dispatch_state))
         = Resolved (map f (make_chunks P items))"
  unfolding workerReplies_posted(1) [OF assms]
  using assms(1,2) workerReplies_posted(2) [OF assms]
  by (rule dispatch_all_replied)

lemma concat_make_chunks: "0 < P \<Longrightarrow> concat (make_chunks P items) = items"
proof (cases "items = []")
  case True
  assume "0 < P"
  then show ?thesis using True by (simp add: make_chunks_Nil)
next
  case False
  assume "0 < P"
  then show ?thesis using False
    by (simp add: make_chunks_def concat_chunk_loop ceil_div_pos)
qed

text \<open>
  Claim C5, as amended. Let every worker apply the same pure function to each item of
  the chunk it was sent and post the list of the results, the workers finishing in any
  order. Then the dispatch on a pool of one worker and the dispatch on a pool of four both
  succeed, each with one result per chunk in chunk order, and the concatenation of the
  per-chunk results is the same for both: the function mapped over the input. The returned
  arrays themselves have one element per chunk and so differ in length.
\<close>

theorem pool_size_equivalence:
  fixes g :: "'a \<Rightarrow> 'b"
  assumes "distinct (map fst sent1)"
    and "set sent1 = set (posted (dispatch (createWorkerPool (Some 1) cpus) items onP
                            :: ('a, 'b list) dispatch_state))"
    and "distinct (map fst sent4)"
    and "set sent4 = set (posted (dispatch (createWorkerPool (Some 4) cpus) items onP
                            :: ('a, 'b list) dispatch_state))"
  shows "\<exists>rs1 rs4.
      settled (run (workerReplies (map g) sent1)
                 (dispatch (createWorkerPool (Some 1) cpus) items onP)) = Resolved rs1
    \<and> settled (run (workerReplies (map g) sent4)
                 (dispatch (createWorkerPool (Some 4) cpus) items onP)) = Resolved rs4
    \<and> length rs1 = length (make_chunks 1 items) \<and> length rs4 = length (make_chunks 4 items)
    \<and> concat rs1 = map g items \<and> concat rs4 = map g items"
proof -
  have c: "0 < P \<Longrightarrow> concat (map (map g) (make_chunks P items)) = map g items" for P
    by (simp add: map_concat [symmetric] concat_make_chunks)
  have "settled (run (workerReplies (map g) sent1)
                 (dispatch (createWorkerPool (Some 1) cpus) items onP))
          = Resolved (map (map g) (make_chunks 1 items))"
    using _ assms(1,2) by (rule dispatch_posted_replied) simp
  moreover have "settled (run (workerReplies (map g) sent4)
                 (dispatch (createWorkerPool (Some 4) cpus) items onP))
          = Resolved (map (map g) (make_chunks 4 items))"
    using _ assms(3,4) by (rule dispatch_posted_replied) simp
  ultimately show ?thesis using c [of 1] c [of 4] by simp
qed

lemma chunks_of_three:
  "make_chunks 1 [10, 20, 30 :: nat] = [[10, 20, 30]]"
  "make_chunks 4 [10, 20, 30 :: nat] = [[10], [20], [30]]"
  by (simp_all add: make_chunks_def ceil_div_def chunk_loop.simps slice_def)

theorem pool_size_equivalence_witness:
  "distinct (map fst [(0 :: nat, [10, 20, 30 :: nat])])
   \<and> set [(0, [10, 20, 30])]
       = set (posted (dispatch (createWorkerPool (Some 1) 8) [10, 20, 30 :: nat] False
                :: (nat, nat list) dispatch_state))
   \<and> distinct (map fst [(2 :: nat, [30 :: nat]), (0, [10]), (1, [20])])
   \<and> set [(2, [30]), (0, [10]), (1, [20])]
       = set (posted (dispatch (createWorkerPool (Some 4) 8) [10, 20, 30 :: nat] False
                :: (nat, nat list) dispatch_state))
   \<and> (\<exists>rs1 rs4.
      settled (run (workerReplies (map Suc) [(0, [10, 20, 30])])
                 (dispatch (createWorkerPool (Some 1) 8) [10, 20, 30 :: nat] False)) = Resolved rs1
    \<and> settled (run (workerReplies (map Suc) [(2, [30]), (0, [10]), (1, [20])])
                 (dispatch (createWorkerPool (Some 4) 8) [10, 20, 30 :: nat] False)) = Resolved rs4
    \<and> length rs1 = length (make_chunks 1 [10, 20, 30 :: nat])
    \<and> length rs4 = length (make_chunks 4 [10, 20, 30 :: nat])
    \<and> concat rs1 = map Suc [10, 20, 30 :: nat] \<and> concat rs4 = map Suc [10, 20, 30 :: nat])"
proof -
  have p1: "posted (dispatch (createWorkerPool (Some 1) 8) [10, 20, 30 :: nat] False
                :: (nat, nat list) dispatch_state) = [(0, [10, 20, 30])]"
    by (subst posted_fresh) (simp_all only: chunks_of_three, simp_all)
  have p4: "posted (dispatch (createWorkerPool (Some 4) 8) [10, 20, 30 :: nat] False
                :: (nat, nat list) dispatch_state) = [(0, [10]), (1, [20]), (2, [30])]"
    by (subst posted_fresh) (simp_all only: chunks_of_three, simp_all add: upt_rec)
  have h1: "distinct (map fst [(0 :: nat, [10, 20, 30 :: nat])])"
    and h3: "distinct (map fst [(2 :: nat, [30 :: nat]), (0, [10]), (1, [20])])" by simp_all
  have h2: "set [(0, [10, 20, 30])]
       = set (posted (dispatch (createWorkerPool (Some 1) 8) [10, 20, 30 :: nat] False
                :: (nat, nat list) dispatch_state))"
    unfolding p1 by simp
  have h4: "set [(2, [30]), (0, [10]), (1, [20])]
       = set (posted (dispatch (createWorkerPool (Some 4) 8) [10, 20, 30 :: nat] False
                :: (nat, nat list) dispatch_state))"
    unfolding p4 by auto
  from pool_size_equivalence [OF h1 h2 h3 h4, of Suc] h1 h2 h3 h4
  show ?thesis by blast
qed

text \<open>
  Two items, each worker mapping the successor over its chunk: the pool of one worker
  returns one result, the pool of four returns two.
\<close>

theorem pool_size_equivalence_counterexample:
  "posted (dispatch (createWorkerPool (Some 1) 8) [10, 20 :: nat] False
      :: (nat, nat list) dispatch_state) = [(0, [10, 20])]
   \<and> posted (dispatch (createWorkerPool (Some 4) 8) [10, 20 :: nat] False
      :: (nat, nat list) dispatch_state) = [(0, [10]), (1, [20])]
   \<and> settled (run (workerReplies (map Suc) [(0, [10, 20])])
       (dispatch (createWorkerPool (Some 1) 8) [10, 20 :: nat] False)) = Resolved [[11, 21]]
   \<and> settled (run (workerReplies (map Suc) [(0, [10]), (1, [20])])
       (dispatch (createWorkerPool (Some 4) 8) [10, 20 :: nat] False)) = Resolved [[11], [21]]
   \<and> settled (run (workerReplies (map Suc) [(0, [10, 20])])
       (dispatch (createWorkerPool (Some 1) 8) [10, 20 :: nat] False))
     \<noteq> settled (run (workerReplies (map Suc) [(0, [10]), (1, [20])])
       (dispatch (createWorkerPool (Some 4) 8) [10, 20 :: nat] False))"
proof -
  have mc: "make_chunks 1 [10, 20 :: nat] = [[10, 20 :: nat]]" "make_chunks 4 [10, 20 :: nat] = [[10], [20]]"
    by (simp_all add: make_chunks_def ceil_div_def chunk_loop.simps slice_def)
  have p1: "posted (dispatch (createWorkerPool (Some 1) 8) [10, 20 :: nat] False
      :: (nat, nat list) dispatch_state) = [(0, [10, 20])]"
    by (subst posted_fresh) (simp_all only: mc, simp_all)
  have p4: "posted (dispatch (createWorkerPool (Some 4) 8) [10, 20 :: nat] False
      :: (nat, nat list) dispatch_state) = [(0, [10]), (1, [20])]"
    by (subst posted_fresh) (simp_all only: mc, simp_all add: upt_rec)
  have "settled (run (workerReplies (map Suc) [(0, [10, 20])])
       (dispatch (createWorkerPool (Some 1) 8) [10, 20 :: nat] False))
       = Resolved (map (map Suc) (make_chunks 1 [10, 20 :: nat]))"
    by (rule dispatch_posted_replied) (unfold p1, simp_all)
  then have a: "settled (run (workerReplies (map Suc) [(0, [10, 20])])
       (dispatch (createWorkerPool (Some 1) 8) [10, 20 :: nat] False)) = Resolved [[11, 21]]"
    unfolding mc by simp
  have "settled (run (workerReplies (map Suc) [(0, [10]), (1, [20])])
       (dispatch (createWorkerPool (Some 4) 8) [10, 20 :: nat] False))
       = Resolved (map (map Suc) (make_chunks 4 [10, 20 :: nat]))"
    by (rule dispatch_posted_replied) (unfold p4, simp_all)
  then have b: "settled (run (workerReplies (map Suc) [(0, [10]), (1, [20])])
       (dispatch (createWorkerPool (Some 4) 8) [10, 20 :: nat] False)) = Resolved [[11], [21]]"
    unfolding mc by simp
  show ?thesis unfolding a b p1 p4 by simp
qed

subsection \<open>Errors after delivery\<close>

text \<open>
  Once the promise of a chunk is settled its message handler is gone, so a later
  \<open>error\<close> event of that worker changes nothing at all.
\<close>

lemma settled_not_listening_step:
  assumes "length (listening st) = length (promises st)"
    and "\<forall>i < length (promises st). promises st ! i \<noteq> Pending \<longrightarrow> \<not> listening st ! i"
  shows "\<forall>i < length (promises (step ev st)).
           promises (step ev st) ! i \<noteq> Pending \<longrightarrow> \<not> listening (step ev st) ! i"
proof (cases ev)
  case (Message k m)
  then show ?thesis using assms
    by (cases m) (auto simp: resolve_def removeListener_def Let_def nth_list_update)
next
  case (Error k err)
  then show ?thesis using assms
    by (auto simp: reject_def removeListener_def nth_list_update)
next
  case (Exit k code)
  then show ?thesis using assms by simp
qed

lemma settled_not_listening_run:
  assumes "length (listening st) = length (promises st)"
    and "\<forall>i < length (promises st). promises st ! i \<noteq> Pending \<longrightarrow> \<not> listening st ! i"
  shows "\<forall>i < length (promises (run evs st)).
           promises (run evs st) ! i \<noteq> Pending \<longrightarrow> \<not> listening (run evs st) ! i"
  using assms
proof (induction evs arbitrary: st)
  case Nil
  then show ?case by simp
next
  case (Cons ev evs)
  have a: "length (listening (step ev st)) = length (promises (step ev st))"
    using Cons.prems(1) by simp
  have b: "\<forall>i < length (promises (step ev st)).
           promises (step ev st) ! i \<noteq> Pending \<longrightarrow> \<not> listening (step ev st) ! i"
    using Cons.prems by (rule settled_not_listening_step)
  from Cons.IH [OF a b] show ?case by simp
qed

lemma settled_not_listening_dispatch:
  "length (listening (dispatch p items onP)) = length (promises (dispatch p items onP))"
  "\<forall>i < length (promises (dispatch p items onP)).
      promises (dispatch p items onP) ! i \<noteq> Pending \<longrightarrow> \<not> listening (dispatch p items onP) ! i"
  by (simp_all add: dispatch_def Let_def)

lemma error_after_result_ignored:
  assumes "i < length (promises (run evs (dispatch p items onP)))"
    and "promises (run evs (dispatch p items onP)) ! i \<noteq> Pending"
  shows "run (evs @ Error i err # evs') (dispatch p items onP)
           = run (evs @ evs') (dispatch p items onP)"
proof -
  let ?st = "run evs (dispatch p items onP)"
  have len: "length (listening ?st) = length (promises ?st)"
    by (simp add: settled_not_listening_dispatch)
  have "\<forall>k < length (promises ?st). promises ?st ! k \<noteq> Pending \<longrightarrow> \<not> listening ?st ! k"
    by (rule settled_not_listening_run) (rule settled_not_listening_dispatch)+
  then have "\<not> listening ?st ! i" using assms by blast
  then have "(listening ?st)[i := False] = listening ?st"
    using assms(1) len by (simp add: list_update_same_conv)
  then have "step (Error i err) ?st = ?st"
    using assms by (simp add: reject_def removeListener_def)
  then show ?thesis by (simp add: run_append)
qed

section \<open>Properties of the knowledge graph types\<close>



section \<open>Properties of the search tool\<close>

text \<open>
  Claim C4. When the lexical index is not built, the tool never consults the hybrid
  search: with the embedder ready its answer is that of the semantic search alone (its
  hits formatted, the no-match message when it has none, its failure when it fails);
  with neither ready the tool returns the text "Search is not available. Please load a
  repository first." as an ordinary value, whatever the collaborators would do.
\<close>

theorem search_without_lexical_index:
  assumes "\<not> isBM25Ready deps"
  shows "searchTool deps query limit =
     (if isEmbeddingReady deps then
        (case semanticSearch deps query (case limit of Some n \<Rightarrow> n | None \<Rightarrow> 10) of
           Inl e \<Rightarrow> Inl e
         | Inr rs \<Rightarrow>
             Inr (if rs = [] then no_code_found_message query
                  else formatMatches deps rs (case limit of Some n \<Rightarrow> n | None \<Rightarrow> 10)))
      else Inr search_unavailable_message)"
  using assms
  by (simp add: searchTool_def searchStep1_def Let_def split: sum.splits)

theorem search_without_lexical_index_witness:
  "\<not> isBM25Ready \<lparr>isBM25Ready = False, isEmbeddingReady = True,
        hybridSearch = (\<lambda>q k. Inl (Failure ''no index'')),
        semanticSearch = (\<lambda>q k. Inr [''Function:src/a.ts:foo'']),
        formatMatches = (\<lambda>rs k. concat rs)\<rparr>
   \<and> searchTool \<lparr>isBM25Ready = False, isEmbeddingReady = True,
        hybridSearch = (\<lambda>q k. Inl (Failure ''no index'')),
        semanticSearch = (\<lambda>q k. Inr [''Function:src/a.ts:foo'']),
        formatMatches = (\<lambda>rs k. concat rs)\<rparr> ''foo'' None = Inr ''Function:src/a.ts:foo''
   \<and> searchTool \<lparr>isBM25Ready = False, isEmbeddingReady = False,
        hybridSearch = (\<lambda>q k. Inl (Failure ''no index'')),
        semanticSearch = (\<lambda>q k. Inl (Failure ''no embedder'')),
        formatMatches = (\<lambda>rs k. concat rs)\<rparr> ''foo'' (Some 5)
       = Inr ''Search is not available. Please load a repository first.''"
  using search_without_lexical_index [of "\<lparr>isBM25Ready = False, isEmbeddingReady = True,
        hybridSearch = (\<lambda>q k. Inl (Failure ''no index'')),
        semanticSearch = (\<lambda>q k. Inr [''Function:src/a.ts:foo'']),
        formatMatches = (\<lambda>rs k. concat rs)\<rparr>" "''foo''" None]
    search_without_lexical_index [of "\<lparr>isBM25Ready = False, isEmbeddingReady = False,
        hybridSearch = (\<lambda>q k. Inl (Failure ''no index'')),
        semanticSearch = (\<lambda>q k. Inl (Failure ''no embedder'')),
        formatMatches = (\<lambda>rs k. concat rs)\<rparr>" "''foo''" "Some 5"]
  by (simp add: search_unavailable_message_def)

text \<open>
  Claim C10. When the lexical index is ready, the hybrid search throws and the embedder
  is not ready, \<open>searchResults\<close> stays empty and the tool returns the
  "No code found matching" message for the query: an ordinary value, different from the
  "search unavailable" text.
\<close>

theorem search_hybrid_failure:
  assumes "isBM25Ready deps"
    and "hybridSearch deps query (case limit of Some n \<Rightarrow> n | None \<Rightarrow> 10) = Inl e"
    and "\<not> isEmbeddingReady deps"
  shows "searchTool deps query limit = Inr (no_code_found_message query)
       \<and> no_code_found_message query \<noteq> search_unavailable_message"
  using assms
  by (simp add: searchTool_def searchStep1_def Let_def no_code_found_message_def
      search_unavailable_message_def)

theorem search_hybrid_failure_witness:
  "isBM25Ready \<lparr>isBM25Ready = True, isEmbeddingReady = False,
        hybridSearch = (\<lambda>q k. Inl (Failure ''index corrupt'')),
        semanticSearch = (\<lambda>q k. Inr [''Function:src/a.ts:foo'']),
        formatMatches = (\<lambda>rs k. concat rs)\<rparr>
   \<and> searchTool \<lparr>isBM25Ready = True, isEmbeddingReady = False,
        hybridSearch = (\<lambda>q k. Inl (Failure ''index corrupt'')),
        semanticSearch = (\<lambda>q k. Inr [''Function:src/a.ts:foo'']),
        formatMatches = (\<lambda>rs k. concat rs)\<rparr> ''foo'' None
       = Inr (''No code found matching '' @ dquote @ ''foo'' @ dquote
              @ ''. Try different terms or use grep for exact patterns.'')"
  using search_hybrid_failure [of "\<lparr>isBM25Ready = True, isEmbeddingReady = False,
        hybridSearch = (\<lambda>q k. Inl (Failure ''index corrupt'')),
        semanticSearch = (\<lambda>q k. Inr [''Function:src/a.ts:foo'']),
        formatMatches = (\<lambda>rs k. concat rs)\<rparr>" "''foo''" None "Failure ''index corrupt''"]
  by (simp add: no_code_found_message_def)

section \<open>Properties of the impact analysis\<close>

lemma depthQueries_Some:
  "depthQueries dir (Some t) depth d
     = Inr (map (\<lambda>k. Traverse dir t (nat k)) [d..min depth 3])"
proof (induction dir "Some t :: string option" depth d rule: depthQueries.induct)
  case (1 dir depth d)
  show ?case
  proof (cases "d \<le> min depth 3")
    case True
    then have "[d..min depth 3] = d # [d + 1..min depth 3]" by (simp add: upto_rec1)
    with True 1 show ?thesis
      by (subst depthQueries.simps) simp
  next
    case False
    then show ?thesis by (subst depthQueries.simps) auto
  qed
qed

lemma visitRow_fold:
  "seenIds (fold (visitRow d) rs acc) = seenIds acc \<union> truthyIds rs
   \<and> rowsAt (fold (visitRow d) rs acc) d = rowsAt acc d @ newlySeen (seenIds acc) rs
   \<and> (\<forall>d'. d' \<noteq> d \<longrightarrow> byDepth (fold (visitRow d) rs acc) d' = byDepth acc d')
   \<and> allNodeIds (fold (visitRow d) rs acc)
       = allNodeIds acc @ map (\<lambda>r. the (nodeId r)) (newlySeen (seenIds acc) rs)"
proof (induction rs arbitrary: acc)
  case Nil
  then show ?case by (simp add: truthyIds_def)
next
  case (Cons r rs)
  have t: "truthyIds (r # rs) =
      (case nodeId r of None \<Rightarrow> {} | Some nid \<Rightarrow> if nid \<noteq> [] then {nid} else {}) \<union> truthyIds rs"
    by (auto simp: truthyIds_def split: option.splits)
  show ?case
  proof (cases "nodeId r")
    case None
    then have "visitRow d r acc = acc" by (simp add: visitRow_def)
    then show ?thesis using Cons [of acc] None by (simp add: t)
  next
    case (Some nid)
    show ?thesis
    proof (cases "nid \<noteq> [] \<and> nid \<notin> seenIds acc")
      case False
      then have "visitRow d r acc = acc" using Some by (auto simp: visitRow_def)
      then show ?thesis using Cons [of acc] Some False by (auto simp: t)
    next
      case True
      let ?acc = "visitRow d r acc"
      have s: "seenIds ?acc = insert nid (seenIds acc)"
        and b: "rowsAt ?acc d = rowsAt acc d @ [r]"
        and o: "\<And>d'. d' \<noteq> d \<Longrightarrow> byDepth ?acc d' = byDepth acc d'"
        and a: "allNodeIds ?acc = allNodeIds acc @ [nid]"
        using Some True by (simp_all add: visitRow_def rowsAt_def)
      show ?thesis using Cons [of ?acc] Some True by (simp add: t s b o a)
    qed
  qed
qed

lemma newlySeen_ids:
  "nodeId ` set (newlySeen seen rs) = Some ` (truthyIds rs - seen)"
proof (induction rs arbitrary: seen)
  case Nil
  then show ?case by (simp add: truthyIds_def)
next
  case (Cons r rs)
  have t: "truthyIds (r # rs) =
      (case nodeId r of None \<Rightarrow> {} | Some nid \<Rightarrow> if nid \<noteq> [] then {nid} else {}) \<union> truthyIds rs"
    by (auto simp: truthyIds_def split: option.splits)
  show ?case
  proof (cases "nodeId r")
    case None
    then show ?thesis using Cons [of seen] by (simp add: t)
  next
    case (Some nid)
    then show ?thesis using Cons [of seen] Cons [of "insert nid seen"]
      by (auto simp: t)
  qed
qed

lemma newlySeen_distinct: "distinct (map nodeId (newlySeen seen rs))"
proof (induction rs arbitrary: seen)
  case Nil
  then show ?case by simp
next
  case (Cons r rs)
  show ?case
  proof (cases "nodeId r")
    case None
    then show ?thesis using Cons [of seen] by simp
  next
    case (Some nid)
    have "Some nid \<notin> nodeId ` set (newlySeen (insert nid seen) rs)"
      by (auto simp: newlySeen_ids)
    then show ?thesis using Some Cons [of seen] Cons [of "insert nid seen"]
      by simp
  qed
qed

lemma newlySeen_subset: "set (newlySeen seen rs) \<subseteq> set rs"
  by (induction rs arbitrary: seen) (auto split: option.splits if_splits)

lemma UN_nth_Cons:
  "(\<Union>j<Suc k. f ((x # xs) ! j)) = f x \<union> (\<Union>j<k. f (xs ! j))"
  by (simp add: lessThan_Suc_eq_insert_0 image_image)

lemma rowsAt_other:
  "d' \<noteq> d \<Longrightarrow> rowsAt (fold (visitRow d) rs acc) d' = rowsAt acc d'"
  using visitRow_fold [of d rs acc] by (simp add: rowsAt_def)

lemma combine_fold:
  "rowsAt (fold (\<lambda>(idx, results). fold (visitRow (idx + 1)) results) (enumerate n rss) acc) d
     = rowsAt acc d @
       (if n < d \<and> d \<le> n + length rss
        then newlySeen (seenIds acc \<union> (\<Union>j<d - Suc n. truthyIds (rss ! j))) (rss ! (d - Suc n))
        else [])
   \<and> seenIds (fold (\<lambda>(idx, results). fold (visitRow (idx + 1)) results) (enumerate n rss) acc)
     = seenIds acc \<union> \<Union>(truthyIds ` set rss)"
proof (induction rss arbitrary: n acc)
  case Nil
  then show ?case by auto
next
  case (Cons rs rss)
  let ?F = "\<lambda>(idx, results). fold (visitRow (idx + 1)) results"
  let ?acc1 = "fold (visitRow (Suc n)) rs acc"
  have unfold: "fold ?F (enumerate n (rs # rss)) acc = fold ?F (enumerate (Suc n) rss) ?acc1"
    by simp
  note ih = Cons [of "Suc n" ?acc1]
  have s1: "seenIds ?acc1 = seenIds acc \<union> truthyIds rs"
    using visitRow_fold [of "Suc n" rs acc] by simp
  have r1: "rowsAt ?acc1 (Suc n) = rowsAt acc (Suc n) @ newlySeen (seenIds acc) rs"
    using visitRow_fold [of "Suc n" rs acc] by simp
  have seen: "seenIds (fold ?F (enumerate n (rs # rss)) acc)
      = seenIds acc \<union> \<Union>(truthyIds ` set (rs # rss))"
    unfolding unfold using ih s1 by auto
  have rows: "rowsAt (fold ?F (enumerate n (rs # rss)) acc) d
     = rowsAt acc d @
       (if n < d \<and> d \<le> n + length (rs # rss)
        then newlySeen (seenIds acc \<union> (\<Union>j<d - Suc n. truthyIds ((rs # rss) ! j)))
               ((rs # rss) ! (d - Suc n))
        else [])"
  proof (cases "d = Suc n")
    case True
    then show ?thesis unfolding unfold using ih r1 by simp
  next
    case False
    then have o: "rowsAt ?acc1 d = rowsAt acc d" by (simp add: rowsAt_other)
    show ?thesis
    proof (cases "Suc n < d \<and> d \<le> Suc n + length rss")
      case True
      then obtain k where k: "d - Suc n = Suc k" "d - Suc (Suc n) = k"
        by (cases "d - Suc n") auto
      have "rowsAt (fold ?F (enumerate (Suc n) rss) ?acc1) d
          = rowsAt acc d @ newlySeen (seenIds acc \<union> truthyIds rs \<union> (\<Union>j<k. truthyIds (rss ! j))) (rss ! k)"
        using ih True by (simp add: o s1 k)
      then show ?thesis unfolding unfold using True
        by (simp add: k UN_nth_Cons Un_assoc)
    next
      case False
      with \<open>d \<noteq> Suc n\<close> have out: "\<not> (n < d \<and> d \<le> n + length (rs # rss))" by auto
      have "rowsAt (fold ?F (enumerate (Suc n) rss) ?acc1) d = rowsAt acc d"
        using ih False by (auto simp: o)
      then show ?thesis unfolding unfold using out by auto
    qed
  qed
  from rows seen show ?case by (rule conjI)
qed

lemma visitRow_ids:
  assumes "distinct (allNodeIds acc)" and "set (allNodeIds acc) = seenIds acc"
  shows "distinct (allNodeIds (visitRow d r acc))
       \<and> set (allNodeIds (visitRow d r acc)) = seenIds (visitRow d r acc)"
  using assms by (auto simp: visitRow_def split: option.splits)

lemma fold_visitRow_ids:
  assumes "distinct (allNodeIds acc)" and "set (allNodeIds acc) = seenIds acc"
  shows "distinct (allNodeIds (fold (visitRow d) rs acc))
       \<and> set (allNodeIds (fold (visitRow d) rs acc)) = seenIds (fold (visitRow d) rs acc)"
  using assms
proof (induction rs arbitrary: acc)
  case Nil
  then show ?case by simp
next
  case (Cons r rs)
  have "distinct (allNodeIds (visitRow d r acc))"
    "set (allNodeIds (visitRow d r acc)) = seenIds (visitRow d r acc)"
    using visitRow_ids [OF Cons.prems] by simp_all
  then show ?case using Cons.IH [of "visitRow d r acc"] by simp
qed

lemma combine_ids:
  assumes "distinct (allNodeIds acc)" and "set (allNodeIds acc) = seenIds acc"
  shows "distinct (allNodeIds (fold (\<lambda>(idx, results). fold (visitRow (idx + 1)) results) (enumerate n rss) acc))
       \<and> set (allNodeIds (fold (\<lambda>(idx, results). fold (visitRow (idx + 1)) results) (enumerate n rss) acc))
         = seenIds (fold (\<lambda>(idx, results). fold (visitRow (idx + 1)) results) (enumerate n rss) acc)"
  using assms
proof (induction rss arbitrary: n acc)
  case Nil
  then show ?case by simp
next
  case (Cons rs rss)
  have "distinct (allNodeIds (fold (visitRow (Suc n)) rs acc))"
    "set (allNodeIds (fold (visitRow (Suc n)) rs acc)) = seenIds (fold (visitRow (Suc n)) rs acc)"
    using fold_visitRow_ids [OF Cons.prems] by simp_all
  then show ?case using Cons.IH [of "fold (visitRow (Suc n)) rs acc" "Suc n"] by simp
qed

lemma combineByDepth_rows:
  "rowsAt (combineByDepth rss) d =
     (if 1 \<le> d \<and> d \<le> length rss
      then newlySeen (\<Union>j<d - 1. truthyIds (rss ! j)) (rss ! (d - 1)) else [])"
  using combine_fold [of 0 rss "\<lparr>byDepth = Map.empty, allNodeIds = [], seenIds = {}\<rparr>" d]
  by (simp add: combineByDepth_def rowsAt_def Suc_le_eq)

lemma combineByDepth_ids:
  "distinct (allNodeIds (combineByDepth rss))
   \<and> set (allNodeIds (combineByDepth rss)) = \<Union>(truthyIds ` set rss)"
  using combine_ids [of "\<lparr>byDepth = Map.empty, allNodeIds = [], seenIds = {}\<rparr>" 0 rss]
    combine_fold [of 0 rss "\<lparr>byDepth = Map.empty, allNodeIds = [], seenIds = {}\<rparr>" 0]
  by (simp add: combineByDepth_def)

lemma combineByDepth_disjoint:
  assumes "d \<noteq> d'"
  shows "nodeId ` set (rowsAt (combineByDepth rss) d)
           \<inter> nodeId ` set (rowsAt (combineByDepth rss) d') = {}"
proof -
  have one: "nodeId ` set (rowsAt (combineByDepth rss) a)
           \<inter> nodeId ` set (rowsAt (combineByDepth rss) b) = {}" if "a < b" for a b
  proof (cases "1 \<le> a \<and> b \<le> length rss")
    case True
    with that have a: "1 \<le> a \<and> a \<le> length rss" and b: "1 \<le> b \<and> b \<le> length rss" by auto
    have ia: "nodeId ` set (rowsAt (combineByDepth rss) a) \<subseteq> Some ` truthyIds (rss ! (a - 1))"
      using a by (auto simp: combineByDepth_rows newlySeen_ids)
    have "a - 1 < b - 1" using that a by auto
    then have "truthyIds (rss ! (a - 1)) \<subseteq> (\<Union>j<b - 1. truthyIds (rss ! j))" by auto
    then have ib: "nodeId ` set (rowsAt (combineByDepth rss) b) \<inter> Some ` truthyIds (rss ! (a - 1)) = {}"
      using b by (auto simp: combineByDepth_rows newlySeen_ids)
    from ia ib show ?thesis by blast
  next
    case False
    then have "rowsAt (combineByDepth rss) a = [] \<or> rowsAt (combineByDepth rss) b = []"
      using that by (auto simp: combineByDepth_rows)
    then show ?thesis by auto
  qed
  from assms have "d < d' \<or> d' < d" by auto
  then show ?thesis using one [of d d'] one [of d' d] by blast
qed

lemma blastRadiusTool_found:
  assumes "executeQuery (FindTarget target) = Inr (t # ts)" and "nodeId t = Some tid"
  shows "blastRadiusTool executeQuery target dir maxDepth =
     Inr (if allNodeIds (combineByDepth (map (queryOrEmpty executeQuery)
                (map (\<lambda>d. Traverse dir tid (nat d)) [1..min (requestedDepth maxDepth) 3]))) = []
          then Text (no_dependencies_message dir target)
          else Report target dir
                 (length (allNodeIds (combineByDepth (map (queryOrEmpty executeQuery)
                    (map (\<lambda>d. Traverse dir tid (nat d)) [1..min (requestedDepth maxDepth) 3])))))
                 (byDepth (combineByDepth (map (queryOrEmpty executeQuery)
                    (map (\<lambda>d. Traverse dir tid (nat d)) [1..min (requestedDepth maxDepth) 3]))))
                 (allNodeIds (combineByDepth (map (queryOrEmpty executeQuery)
                    (map (\<lambda>d. Traverse dir tid (nat d)) [1..min (requestedDepth maxDepth) 3])))))"
  using assms by (simp add: blastRadiusTool_def Let_def depthQueries_Some)

text \<open>
  What the tool computes when the target node is found. It issues one traversal of
  exactly \<open>d\<close> hops for each depth \<open>d\<close> from 1 up to \<open>min(depth, 3)\<close>, where
  \<open>depth = min(maxDepth ?? 3, 10)\<close>, a failed traversal counting as empty. The rows kept
  at depth \<open>d\<close> are the newly seen rows of the \<open>d\<close>-hop result: the first row of each
  non-empty id that no shallower result contains. Hence no id occurs twice within a depth,
  the per-depth lists are pairwise disjoint, and the ids counted are, each once, those of
  all the results.
\<close>

lemma blastRadiusTool_depths:
  assumes "executeQuery (FindTarget target) = Inr (t # ts)" and "nodeId t = Some tid"
    and "qs = map (\<lambda>d. Traverse dir tid (nat d)) [1..min (requestedDepth maxDepth) 3]"
    and "rss = map (queryOrEmpty executeQuery) qs"
    and "acc = combineByDepth rss"
  shows "depthQueries dir (nodeId t) (requestedDepth maxDepth) 1 = Inr qs
    \<and> blastRadiusTool executeQuery target dir maxDepth =
        Inr (if allNodeIds acc = [] then Text (no_dependencies_message dir target)
             else Report target dir (length (allNodeIds acc)) (byDepth acc) (allNodeIds acc))
    \<and> (\<forall>d. rowsAt acc d =
          (if 1 \<le> d \<and> d \<le> length rss
           then newlySeen (\<Union>j<d - 1. truthyIds (rss ! j)) (rss ! (d - 1)) else []))
    \<and> (\<forall>d d'. d \<noteq> d' \<longrightarrow> nodeId ` set (rowsAt acc d) \<inter> nodeId ` set (rowsAt acc d') = {})
    \<and> (\<forall>d. distinct (map nodeId (rowsAt acc d)))
    \<and> distinct (allNodeIds acc) \<and> set (allNodeIds acc) = \<Union>(truthyIds ` set rss)"
proof -
  have q: "depthQueries dir (nodeId t) (requestedDepth maxDepth) 1 = Inr qs"
    by (simp add: assms(2,3) depthQueries_Some)
  have b: "blastRadiusTool executeQuery target dir maxDepth =
        Inr (if allNodeIds acc = [] then Text (no_dependencies_message dir target)
             else Report target dir (length (allNodeIds acc)) (byDepth acc) (allNodeIds acc))"
    unfolding assms(3,4,5) using assms(1,2) by (rule blastRadiusTool_found)
  have r: "\<forall>d. rowsAt acc d =
          (if 1 \<le> d \<and> d \<le> length rss
           then newlySeen (\<Union>j<d - 1. truthyIds (rss ! j)) (rss ! (d - 1)) else [])"
    unfolding assms(5) by (intro allI) (rule combineByDepth_rows)
  have d: "\<forall>d d'. d \<noteq> d' \<longrightarrow> nodeId ` set (rowsAt acc d) \<inter> nodeId ` set (rowsAt acc d') = {}"
    unfolding assms(5) by (intro allI impI) (rule combineByDepth_disjoint)
  have u: "\<forall>d. distinct (map nodeId (rowsAt acc d))"
    unfolding assms(5) by (simp add: combineByDepth_rows newlySeen_distinct)
  have i: "distinct (allNodeIds acc) \<and> set (allNodeIds acc) = \<Union>(truthyIds ` set rss)"
    unfolding assms(5) by (rule combineByDepth_ids)
  from q b r d u i show ?thesis by blast
qed

lemma chain_results:
  "map (queryOrEmpty chain_store)
     (map (\<lambda>d. Traverse downstream ''Function:src/chain.ts:a'' (nat d))
        [1..min (requestedDepth (Some 5)) 3])
     = [[node ''b'', node ''c''], [node ''c'', node ''d''], [node ''d'', node ''e'']]"
  by (simp add: requestedDepth_def queryOrEmpty_def upto_rec1)

lemma chain_combined:
  "rowsAt (combineByDepth [[node ''b'', node ''c''], [node ''c'', node ''d''], [node ''d'', node ''e'']]) 1
     = [node ''b'', node ''c'']"
  "rowsAt (combineByDepth [[node ''b'', node ''c''], [node ''c'', node ''d''], [node ''d'', node ''e'']]) 2
     = [node ''d'']"
  "rowsAt (combineByDepth [[node ''b'', node ''c''], [node ''c'', node ''d''], [node ''d'', node ''e'']]) 3
     = [node ''e'']"
  "rowsAt (combineByDepth [[node ''b'', node ''c''], [node ''c'', node ''d''], [node ''d'', node ''e'']]) 4
     = []"
  "allNodeIds (combineByDepth [[node ''b'', node ''c''], [node ''c'', node ''d''], [node ''d'', node ''e'']])
     = [''Function:src/chain.ts:b'', ''Function:src/chain.ts:c'', ''Function:src/chain.ts:d'',
        ''Function:src/chain.ts:e'']"
  by (simp_all add: combineByDepth_def visitRow_def rowsAt_def node_def)

lemma blastRadiusTool_depths_example:
  "chain_store (FindTarget ''a'') = Inr (node ''a'' # [])
   \<and> nodeId (node ''a'') = Some ''Function:src/chain.ts:a''
   \<and> depthQueries downstream (nodeId (node ''a'')) (requestedDepth (Some 2)) 1
       = Inr [Traverse downstream ''Function:src/chain.ts:a'' 1,
              Traverse downstream ''Function:src/chain.ts:a'' 2]
   \<and> blastRadiusTool chain_store ''a'' downstream (Some 2)
       = Inr (Report ''a'' downstream 3
                (byDepth (combineByDepth [[node ''b'', node ''c''], [node ''c'', node ''d'']]))
                [''Function:src/chain.ts:b'', ''Function:src/chain.ts:c'', ''Function:src/chain.ts:d''])
   \<and> rowsAt (combineByDepth [[node ''b'', node ''c''], [node ''c'', node ''d'']]) 2 = [node ''d'']"
proof -
  let ?qs = "map (\<lambda>d. Traverse downstream ''Function:src/chain.ts:a'' (nat d))
               [1..min (requestedDepth (Some 2)) 3]"
  let ?rss = "map (queryOrEmpty chain_store) ?qs"
  have h1: "chain_store (FindTarget ''a'') = Inr (node ''a'' # [])" by simp
  have h2: "nodeId (node ''a'') = Some ''Function:src/chain.ts:a''" by (simp add: node_def)
  have qs: "?qs = [Traverse downstream ''Function:src/chain.ts:a'' 1,
                   Traverse downstream ''Function:src/chain.ts:a'' 2]"
    by (simp add: requestedDepth_def upto_rec1)
  have rss: "?rss = [[node ''b'', node ''c''], [node ''c'', node ''d'']]"
    unfolding qs by (simp add: queryOrEmpty_def)
  have ids: "allNodeIds (combineByDepth [[node ''b'', node ''c''], [node ''c'', node ''d'']])
      = [''Function:src/chain.ts:b'', ''Function:src/chain.ts:c'', ''Function:src/chain.ts:d'']"
    by (simp add: combineByDepth_def visitRow_def node_def)
  have rows: "rowsAt (combineByDepth [[node ''b'', node ''c''], [node ''c'', node ''d'']]) 2
      = [node ''d'']"
    by (simp add: combineByDepth_def visitRow_def rowsAt_def node_def)
  note inst = blastRadiusTool_depths [where executeQuery = chain_store and target = "''a''"
      and dir = downstream and maxDepth = "Some 2", OF h1 h2 refl refl refl, unfolded rss]
  from inst have "depthQueries downstream (nodeId (node ''a'')) (requestedDepth (Some 2)) 1 = Inr ?qs"
    by blast
  then have a: "depthQueries downstream (nodeId (node ''a'')) (requestedDepth (Some 2)) 1
       = Inr [Traverse downstream ''Function:src/chain.ts:a'' 1,
              Traverse downstream ''Function:src/chain.ts:a'' 2]"
    unfolding qs .
  from inst have "blastRadiusTool chain_store ''a'' downstream (Some 2) =
      Inr (if allNodeIds (combineByDepth [[node ''b'', node ''c''], [node ''c'', node ''d'']]) = []
           then Text (no_dependencies_message downstream ''a'')
           else Report ''a'' downstream
                  (length (allNodeIds (combineByDepth [[node ''b'', node ''c''], [node ''c'', node ''d'']])))
                  (byDepth (combineByDepth [[node ''b'', node ''c''], [node ''c'', node ''d'']]))
                  (allNodeIds (combineByDepth [[node ''b'', node ''c''], [node ''c'', node ''d'']])))"
    by blast
  then have b: "blastRadiusTool chain_store ''a'' downstream (Some 2)
       = Inr (Report ''a'' downstream 3
                (byDepth (combineByDepth [[node ''b'', node ''c''], [node ''c'', node ''d'']]))
                [''Function:src/chain.ts:b'', ''Function:src/chain.ts:c'', ''Function:src/chain.ts:d''])"
    unfolding ids by simp
  from h1 h2 a b rows show ?thesis by blast
qed

text \<open>
  Claim C2. The claim has one traversal for each depth from 1 up to
  \<open>min(maxDepth, 10)\<close>, which is also what the tool computes as \<open>depth\<close> and what its
  schema text promises ("default: 3, max: 10"). The loop, however, stops at
  \<open>min(depth, 3)\<close>. On the call chain, with \<open>maxDepth = 5\<close>, the depth is 5, yet the
  tool issues the traversals of 1, 2 and 3 hops only: \<open>f\<close>, which the store first
  reaches by a path of 4 calls, is missing from the report, and no rows are kept at
  depth 4. The seen-set does work as the claim says: \<open>c\<close>, \<open>d\<close> and \<open>e\<close>, found
  again at the next depth, are counted once.
\<close>

theorem blastRadius_depth_five:
  "depthQueries downstream (Some ''Function:src/chain.ts:a'') (requestedDepth (Some 5)) 1
       = Inr [Traverse downstream ''Function:src/chain.ts:a'' 1,
              Traverse downstream ''Function:src/chain.ts:a'' 2,
              Traverse downstream ''Function:src/chain.ts:a'' 3]
   \<and> requestedDepth (Some 5) = 5
   \<and> chain_store (Traverse downstream ''Function:src/chain.ts:a'' 4) = Inr [node ''e'', node ''f'']
   \<and> blastRadiusTool chain_store ''a'' downstream (Some 5)
       = Inr (Report ''a'' downstream 4
                (byDepth (combineByDepth
                   [[node ''b'', node ''c''], [node ''c'', node ''d''], [node ''d'', node ''e'']]))
                [''Function:src/chain.ts:b'', ''Function:src/chain.ts:c'',
                 ''Function:src/chain.ts:d'', ''Function:src/chain.ts:e''])
   \<and> rowsAt (combineByDepth
         [[node ''b'', node ''c''], [node ''c'', node ''d''], [node ''d'', node ''e'']]) 4 = []"
proof -
  have a: "depthQueries downstream (Some ''Function:src/chain.ts:a'') (requestedDepth (Some 5)) 1
       = Inr [Traverse downstream ''Function:src/chain.ts:a'' 1,
              Traverse downstream ''Function:src/chain.ts:a'' 2,
              Traverse downstream ''Function:src/chain.ts:a'' 3]"
    by (simp add: depthQueries_Some requestedDepth_def upto_rec1)
  have h1: "chain_store (FindTarget ''a'') = Inr (node ''a'' # [])" by simp
  have h2: "nodeId (node ''a'') = Some ''Function:src/chain.ts:a''" by (simp add: node_def)
  have b: "blastRadiusTool chain_store ''a'' downstream (Some 5)
       = Inr (Report ''a'' downstream 4
                (byDepth (combineByDepth
                   [[node ''b'', node ''c''], [node ''c'', node ''d''], [node ''d'', node ''e'']]))
                [''Function:src/chain.ts:b'', ''Function:src/chain.ts:c'',
                 ''Function:src/chain.ts:d'', ''Function:src/chain.ts:e''])"
    unfolding blastRadiusTool_found [where executeQuery = chain_store and target = "''a''", OF h1 h2]
      chain_results chain_combined by simp
  have c: "chain_store (Traverse downstream ''Function:src/chain.ts:a'' 4) = Inr [node ''e'', node ''f'']"
    by simp
  have d: "requestedDepth (Some 5) = 5" by (simp add: requestedDepth_def)
  from a b c d chain_combined(4) show ?thesis by simp
qed

lemma combineByDepth_no_rows:
  assumes "\<forall>rs \<in> set rss. rs = []"
  shows "allNodeIds (combineByDepth rss) = []"
proof -
  have "\<Union>(truthyIds ` set rss) = {}" using assms by (auto simp: truthyIds_def)
  then have "set (allNodeIds (combineByDepth rss)) = {}"
    using combineByDepth_ids [of rss] by simp
  then show ?thesis by simp
qed

text \<open>
  Claim C9. When the lookup of the target name returns no row, the tool returns the
  "Could not find" message; when the target is found and every traversal in the
  requested direction comes back empty, it returns the "No ... dependencies found"
  message. Both are ordinary return values, not exceptions, and the two texts differ from
  each other and from the text returned when the lookup itself fails.
\<close>

theorem blastRadius_empty_results:
  "(executeQuery (FindTarget target) = Inr [] \<longrightarrow>
      blastRadiusTool executeQuery target dir maxDepth = Inr (Text (could_not_find_message target)))
   \<and> (executeQuery (FindTarget target) = Inr (t # ts) \<and> nodeId t = Some tid
        \<and> (\<forall>d. queryOrEmpty executeQuery (Traverse dir tid d) = []) \<longrightarrow>
      blastRadiusTool executeQuery target dir maxDepth
        = Inr (Text (no_dependencies_message dir target)))
   \<and> could_not_find_message target \<noteq> no_dependencies_message dir target
   \<and> could_not_find_message target \<noteq> error_finding_message target e
   \<and> no_dependencies_message dir target \<noteq> error_finding_message target e"
proof -
  have a: "executeQuery (FindTarget target) = Inr [] \<longrightarrow>
      blastRadiusTool executeQuery target dir maxDepth = Inr (Text (could_not_find_message target))"
    by (simp add: blastRadiusTool_def Let_def)
  have b: "executeQuery (FindTarget target) = Inr (t # ts) \<and> nodeId t = Some tid
        \<and> (\<forall>d. queryOrEmpty executeQuery (Traverse dir tid d) = []) \<longrightarrow>
      blastRadiusTool executeQuery target dir maxDepth
        = Inr (Text (no_dependencies_message dir target))"
  proof (intro impI, elim conjE)
    assume f: "executeQuery (FindTarget target) = Inr (t # ts)" and i: "nodeId t = Some tid"
      and n: "\<forall>d. queryOrEmpty executeQuery (Traverse dir tid d) = []"
    have "allNodeIds (combineByDepth (map (queryOrEmpty executeQuery)
                (map (\<lambda>d. Traverse dir tid (nat d)) [1..min (requestedDepth maxDepth) 3]))) = []"
      by (rule combineByDepth_no_rows) (simp add: n)
    then show "blastRadiusTool executeQuery target dir maxDepth
        = Inr (Text (no_dependencies_message dir target))"
      by (simp add: blastRadiusTool_found [where executeQuery = executeQuery and target = target, OF f i])
  qed
  have c: "could_not_find_message target \<noteq> no_dependencies_message dir target"
    "could_not_find_message target \<noteq> error_finding_message target e"
    "no_dependencies_message dir target \<noteq> error_finding_message target e"
    by (simp_all add: could_not_find_message_def no_dependencies_message_def
        error_finding_message_def)
  from a b c show ?thesis by blast
qed

theorem blastRadius_empty_results_witness:
  "chain_store (FindTarget ''zzz'') = Inr []
   \<and> blastRadiusTool chain_store ''zzz'' upstream None
       = Inr (Text (could_not_find_message ''zzz''))
   \<and> chain_store (FindTarget ''a'') = Inr (node ''a'' # [])
   \<and> nodeId (node ''a'') = Some ''Function:src/chain.ts:a''
   \<and> (\<forall>d. queryOrEmpty chain_store (Traverse upstream ''Function:src/chain.ts:a'' d) = [])
   \<and> blastRadiusTool chain_store ''a'' upstream None
       = Inr (Text (no_dependencies_message upstream ''a''))"
proof -
  have h0: "chain_store (FindTarget ''zzz'') = Inr []" by simp
  have h1: "chain_store (FindTarget ''a'') = Inr (node ''a'' # [])" by simp
  have h2: "nodeId (node ''a'') = Some ''Function:src/chain.ts:a''" by (simp add: node_def)
  have h3: "\<forall>d. queryOrEmpty chain_store (Traverse upstream ''Function:src/chain.ts:a'' d) = []"
    by (simp add: queryOrEmpty_def)
  from blastRadius_empty_results [of chain_store "''zzz''" upstream None] h0
  have a: "blastRadiusTool chain_store ''zzz'' upstream None
       = Inr (Text (could_not_find_message ''zzz''))"
    by blast
  from blastRadius_empty_results [of chain_store "''a''" upstream None "node ''a''" "[]"
      "''Function:src/chain.ts:a''"] h1 h2 h3
  have b: "blastRadiusTool chain_store ''a'' upstream None
       = Inr (Text (no_dependencies_message upstream ''a''))"
    by blast
  from h0 a h1 h2 h3 b show ?thesis by blast
qed

end
